theory Spec2Isabelle
  imports
    Main
    "HOL-Library.Char_ord"
    "HOL-Library.List_Lexorder"
    "HOL-Library.Sublist"
begin

section \<open>Python strings and lists\<close>

text \<open>
  A Python \<open>str\<close> is modelled as a \<open>string\<close> whose characters are the code points below
  256. \<open>is_space\<close> is \<open>str.isspace\<close> on one such code point: the characters that
  \<open>str.split()\<close> and \<open>str.strip()\<close> treat as whitespace.
\<close>

definition is_space :: "char \<Rightarrow> bool" where
  "is_space c =
     (let n = (of_char c :: nat)
      in (9 \<le> n \<and> n \<le> 13) \<or> (28 \<le> n \<and> n \<le> 32) \<or> n = 133 \<or> n = 160)"

text \<open>\<open>s.split()\<close>: the maximal runs of non-whitespace characters, left to right.
  The first argument is the word being read.\<close>

fun split_from :: "string \<Rightarrow> string \<Rightarrow> string list" where
  "split_from cur [] = (if cur = [] then [] else [cur])"
| "split_from cur (c # cs) =
     (if is_space c
      then (if cur = [] then split_from [] cs else cur # split_from [] cs)
      else split_from (cur @ [c]) cs)"

definition split_ws :: "string \<Rightarrow> string list" where
  "split_ws s = split_from [] s"

text \<open>\<open>sep.join(ws)\<close>.\<close>

fun join_with :: "string \<Rightarrow> string list \<Rightarrow> string" where
  "join_with sep [] = []"
| "join_with sep [w] = w"
| "join_with sep (w # v # ws) = w @ sep @ join_with sep (v # ws)"

text \<open>\<open>s.strip()\<close>.\<close>

definition strip :: "string \<Rightarrow> string" where
  "strip s = rev (dropWhile is_space (rev (dropWhile is_space s)))"

text \<open>\<open>xs[start:]\<close> for a Python integer \<open>start\<close>: a negative start counts from the
  end, and both ends are clamped to the list.\<close>

definition slice_from :: "int \<Rightarrow> 'a list \<Rightarrow> 'a list" where
  "slice_from start xs =
     (let n = int (length xs);
          i = (if start < 0 then max 0 (n + start) else min start n)
      in drop (nat i) xs)"

text \<open>\<open>s.replace(old, "")\<close>: every occurrence of \<open>old\<close>, found left to right without
  overlap, is deleted.\<close>

function remove_all :: "string \<Rightarrow> string \<Rightarrow> string" where
  "remove_all old [] = []"
| "remove_all old (c # cs) =
     (if old \<noteq> [] \<and> prefix old (c # cs)
      then remove_all old (drop (length old) (c # cs))
      else c # remove_all old cs)"
  by pat_completeness auto
termination
  by (relation "measure (\<lambda>(old, s). length s)") auto

section \<open>Dates and times\<close>

text \<open>A naive \<open>datetime\<close> object.\<close>

record datetime =
  year :: nat
  month :: nat
  day :: nat
  hour :: nat
  minute :: nat
  second :: nat
  microsecond :: nat

text \<open>The character of a decimal digit \<open>n < 10\<close>.\<close>

definition digit_char :: "nat \<Rightarrow> char" where
  "digit_char n = ''0123456789'' ! n"

text \<open>The decimal digits of \<open>n\<close>, zero-padded to the width \<open>k\<close> (\<open>%0kd\<close>).\<close>

fun zero_pad :: "nat \<Rightarrow> nat \<Rightarrow> string" where
  "zero_pad 0 n = []"
| "zero_pad (Suc k) n = zero_pad k (n div 10) @ [digit_char (n mod 10)]"

text \<open>\<open>datetime.isoformat()\<close>.\<close>

definition isoformat :: "datetime \<Rightarrow> string" where
  "isoformat t =
     zero_pad 4 (year t) @ ''-'' @ zero_pad 2 (month t) @ ''-'' @ zero_pad 2 (day t) @ ''T'' @
     zero_pad 2 (hour t) @ '':'' @ zero_pad 2 (minute t) @ '':'' @ zero_pad 2 (second t) @
     (if microsecond t = 0 then [] else ''.'' @ zero_pad 6 (microsecond t))"

definition is_leap :: "nat \<Rightarrow> bool" where
  "is_leap y = (y mod 4 = 0 \<and> (y mod 100 \<noteq> 0 \<or> y mod 400 = 0))"

definition days_in_month :: "nat \<Rightarrow> nat \<Rightarrow> nat" where
  "days_in_month y m =
     (if m = 2 then (if is_leap y then 29 else 28)
      else if m = 4 \<or> m = 6 \<or> m = 9 \<or> m = 11 then 30 else 31)"

text \<open>The arguments that the \<open>datetime\<close> constructor accepts; it raises \<open>ValueError\<close>
  on the others.\<close>

definition valid_datetime :: "nat \<Rightarrow> nat \<Rightarrow> nat \<Rightarrow> nat \<Rightarrow> nat \<Rightarrow> nat \<Rightarrow> bool" where
  "valid_datetime y m d h mi s =
     (1 \<le> y \<and> y \<le> 9999 \<and> 1 \<le> m \<and> m \<le> 12 \<and> 1 \<le> d \<and> d \<le> days_in_month y m \<and>
      h \<le> 23 \<and> mi \<le> 59 \<and> s \<le> 59)"

subsection \<open>\<open>datetime.strptime(s, "%Y%m%d_%H%M%S")\<close>\<close>

text \<open>
  \<open>strptime\<close> is library code. It turns the format into a regular expression, one group
  per directive, matches it against a prefix of the string with a backtracking matcher,
  rejects a match that leaves characters over, and builds the \<open>datetime\<close>. A group is
  modelled as a function from the input to the list of its matches, each the value read
  and the rest of the input, in the order in which the matcher tries them.
\<close>

definition in_range :: "char \<Rightarrow> char \<Rightarrow> char \<Rightarrow> bool" where
  "in_range lo hi c = ((of_char lo :: nat) \<le> of_char c \<and> (of_char c :: nat) \<le> of_char hi)"

definition is_digit :: "char \<Rightarrow> bool" where
  "is_digit c = in_range CHR ''0'' CHR ''9'' c"

definition digit_val :: "char \<Rightarrow> nat" where
  "digit_val c = of_char c - 48"

definition two :: "(char \<Rightarrow> bool) \<Rightarrow> (char \<Rightarrow> bool) \<Rightarrow> string \<Rightarrow> (nat \<times> string) list" where
  "two p q s =
     (case s of
        a # b # r \<Rightarrow> if p a \<and> q b then [(10 * digit_val a + digit_val b, r)] else []
      | _ \<Rightarrow> [])"

definition one :: "(char \<Rightarrow> bool) \<Rightarrow> string \<Rightarrow> (nat \<times> string) list" where
  "one p s = (case s of a # r \<Rightarrow> if p a then [(digit_val a, r)] else [] | _ \<Rightarrow> [])"

definition lit :: "char \<Rightarrow> string \<Rightarrow> string list" where
  "lit c s = (case s of a # r \<Rightarrow> if a = c then [r] else [] | _ \<Rightarrow> [])"

text \<open>\<open>%Y\<close> is \<open>\d\d\d\d\<close>.\<close>

definition re_Y :: "string \<Rightarrow> (nat \<times> string) list" where
  "re_Y s =
     (case s of
        a # b # c # d # r \<Rightarrow>
          if is_digit a \<and> is_digit b \<and> is_digit c \<and> is_digit d
          then [(1000 * digit_val a + 100 * digit_val b + 10 * digit_val c + digit_val d, r)]
          else []
      | _ \<Rightarrow> [])"

text \<open>\<open>%m\<close> is \<open>1[0-2]|0[1-9]|[1-9]\<close>.\<close>

definition re_m :: "string \<Rightarrow> (nat \<times> string) list" where
  "re_m s =
     two ((=) CHR ''1'') (in_range CHR ''0'' CHR ''2'') s @
     two ((=) CHR ''0'') (in_range CHR ''1'' CHR ''9'') s @
     one (in_range CHR ''1'' CHR ''9'') s"

text \<open>\<open>%d\<close> is \<open>3[0-1]|[1-2]\d|0[1-9]|[1-9]| [1-9]\<close>.\<close>

definition re_d :: "string \<Rightarrow> (nat \<times> string) list" where
  "re_d s =
     two ((=) CHR ''3'') (in_range CHR ''0'' CHR ''1'') s @
     two (in_range CHR ''1'' CHR ''2'') is_digit s @
     two ((=) CHR ''0'') (in_range CHR ''1'' CHR ''9'') s @
     one (in_range CHR ''1'' CHR ''9'') s @
     (case s of
        a # b # r \<Rightarrow> if a = CHR '' '' \<and> in_range CHR ''1'' CHR ''9'' b then [(digit_val b, r)] else []
      | _ \<Rightarrow> [])"

text \<open>\<open>%H\<close> is \<open>2[0-3]|[0-1]\d|\d\<close>.\<close>

definition re_H :: "string \<Rightarrow> (nat \<times> string) list" where
  "re_H s =
     two ((=) CHR ''2'') (in_range CHR ''0'' CHR ''3'') s @
     two (in_range CHR ''0'' CHR ''1'') is_digit s @
     one is_digit s"

text \<open>\<open>%M\<close> is \<open>[0-5]\d|\d\<close>.\<close>

definition re_M :: "string \<Rightarrow> (nat \<times> string) list" where
  "re_M s = two (in_range CHR ''0'' CHR ''5'') is_digit s @ one is_digit s"

text \<open>\<open>%S\<close> is \<open>6[0-1]|[0-5]\d|\d\<close>.\<close>

definition re_S :: "string \<Rightarrow> (nat \<times> string) list" where
  "re_S s =
     two ((=) CHR ''6'') (in_range CHR ''0'' CHR ''1'') s @
     two (in_range CHR ''0'' CHR ''5'') is_digit s @
     one is_digit s"

text \<open>All matches of the whole expression against a prefix of \<open>s\<close>, the matcher's first
  choice first.\<close>

definition matches :: "string \<Rightarrow> (datetime \<times> string) list" where
  "matches s =
     List.bind (re_Y s) (\<lambda>(y, r1).
     List.bind (re_m r1) (\<lambda>(m, r2).
     List.bind (re_d r2) (\<lambda>(d, r3).
     List.bind (lit CHR ''_'' r3) (\<lambda>r4.
     List.bind (re_H r4) (\<lambda>(h, r5).
     List.bind (re_M r5) (\<lambda>(mi, r6).
     List.bind (re_S r6) (\<lambda>(sec, r7).
       [(\<lparr>year = y, month = m, day = d, hour = h, minute = mi, second = sec,
           microsecond = 0\<rparr>, r7)])))))))"

text \<open>\<open>None\<close> is \<open>ValueError\<close>: no match, unconverted data, or a value out of range.\<close>

definition strptime :: "string \<Rightarrow> datetime option" where
  "strptime s =
     (case matches s of
        [] \<Rightarrow> None
      | (t, rest) # _ \<Rightarrow>
          if rest \<noteq> [] then None
          else if valid_datetime (year t) (month t) (day t) (hour t) (minute t) (second t)
          then Some t
          else None)"

text \<open>The characters that the expression can match: digits, the underscore and the
  space.\<close>

definition timestamp_char :: "char \<Rightarrow> bool" where
  "timestamp_char c = (is_digit c \<or> c = CHR ''_'' \<or> c = CHR '' '')"

section \<open>TranscriptionService\<close>

text \<open>The dictionary built by \<open>_process_audio_file\<close>; every field is a string.\<close>

record transcript_record =
  timestamp :: string
  video_start :: string
  video_end :: string
  filename :: string
  transcript :: string
  summary :: string

text \<open>
  The fields of \<open>TranscriptionService\<close>. A segment file is identified by its name inside
  \<open>audio_dir\<close>. \<open>dispatch_log\<close> is not a field of the class: it records, in order, each
  call of \<open>_process_audio_file\<close> made by \<open>_check_new_files\<close> and each
  \<open>processed_files.add\<close>, so that claims about the order and number of dispatches can
  be stated.
\<close>

datatype event = Dispatched string | Added string

record transcription_service =
  processed_files :: "string set"
  is_monitoring :: bool
  latest_transcripts :: "transcript_record list"
  dispatch_log :: "event list"

definition init_service :: transcription_service where
  "init_service =
     \<lparr>processed_files = {}, is_monitoring = False, latest_transcripts = [], dispatch_log = []\<rparr>"

subsection \<open>Summaries\<close>

text \<open>The \<open>except\<close> branch of \<open>_generate_summary\<close>.\<close>

definition fallback_summary :: "string \<Rightarrow> string" where
  "fallback_summary t =
     (let words = split_ws t
      in if length words > 15 then join_with '' '' (take 15 words) @ ''...'' else t)"

text \<open>
  \<open>_generate_summary\<close>. The completion service is a parameter: \<open>svc t\<close> is
  \<open>Some content\<close> when the call returns the message content and \<open>None\<close> when
  \<open>_groq_summarize\<close> raises.
\<close>

definition generate_summary :: "(string \<Rightarrow> string option) \<Rightarrow> string \<Rightarrow> string" where
  "generate_summary svc t =
     (case svc t of Some content \<Rightarrow> strip content | None \<Rightarrow> fallback_summary t)"

text \<open>
  A transcript written out: leading whitespace, then each word followed by the whitespace
  after it. \<open>blank\<close> is a run of whitespace, \<open>word\<close> a non-empty run of other characters;
  in a well-formed list the whitespace after every word but the last is not empty.
\<close>

definition blank :: "string \<Rightarrow> bool" where
  "blank g = list_all is_space g"

definition word :: "string \<Rightarrow> bool" where
  "word w = (w \<noteq> [] \<and> list_all (\<lambda>c. \<not> is_space c) w)"

fun weave :: "string \<Rightarrow> (string \<times> string) list \<Rightarrow> string" where
  "weave lead [] = lead"
| "weave lead ((w, g) # rest) = lead @ w @ weave g rest"

fun gaps_ok :: "(string \<times> string) list \<Rightarrow> bool" where
  "gaps_ok [] = True"
| "gaps_ok [(w, g)] = (word w \<and> blank g)"
| "gaps_ok ((w, g) # v # rest) = (word w \<and> blank g \<and> g \<noteq> [] \<and> gaps_ok (v # rest))"

text \<open>The words of a list with one space between neighbours, in the words of the
  specification.\<close>

fun spaced :: "string list \<Rightarrow> string" where
  "spaced [] = []"
| "spaced (w # ws) = w @ concat (map (\<lambda>v. CHR '' '' # v) ws)"

subsection \<open>Timestamps\<close>

text \<open>\<open>_extract_timestamp\<close>; \<open>now\<close> is the value of \<open>datetime.now()\<close>.\<close>

definition extract_timestamp :: "datetime \<Rightarrow> string \<Rightarrow> datetime" where
  "extract_timestamp now name =
     (case strptime (remove_all ''.wav'' (remove_all ''audio_'' name)) of
        Some t \<Rightarrow> t
      | None \<Rightarrow> now)"

text \<open>
  The name that the capture tool gives to the segment started at \<open>t\<close>: the output pattern
  \<open>audio_%Y%m%d_%H%M%S.wav\<close> of \<open>_start_ffmpeg_capture\<close>, expanded by \<open>strftime\<close>.
\<close>

definition segment_name :: "datetime \<Rightarrow> string" where
  "segment_name t =
     ''audio_'' @ zero_pad 4 (year t) @ zero_pad 2 (month t) @ zero_pad 2 (day t) @ ''_'' @
     zero_pad 2 (hour t) @ zero_pad 2 (minute t) @ zero_pad 2 (second t) @ ''.wav''"

text \<open>
  The filename convention in the words of the specification,
  \<open>audio_<YYYYMMDD>_<HHMMSS>.wav\<close>: the prefix, eight digits, an underscore, six digits
  and the suffix, and nothing else.
\<close>

definition matches_convention :: "string \<Rightarrow> bool" where
  "matches_convention name =
     (length name = 25 \<and> take 6 name = ''audio_'' \<and>
      list_all is_digit (take 8 (drop 6 name)) \<and>
      take 1 (drop 14 name) = ''_'' \<and>
      list_all is_digit (take 6 (drop 15 name)) \<and>
      drop 21 name = ''.wav'')"

subsection \<open>Processing one segment\<close>

text \<open>
  What \<open>_process_audio_file\<close> reads from outside the service: \<open>file_stat\<close> is the size
  returned by \<open>stat()\<close> (\<open>None\<close> when it raises), \<open>whisper\<close> the text returned by the
  model (\<open>None\<close> when it raises), \<open>groq\<close> the content returned by the completion
  service (\<open>None\<close> when it raises) and \<open>clock\<close> the wall-clock time.
\<close>

record env =
  file_stat :: "string \<Rightarrow> nat option"
  whisper :: "string \<Rightarrow> string option"
  groq :: "string \<Rightarrow> string option"
  clock :: datetime

text \<open>\<open>_transcribe_audio\<close>: the stripped text, or \<open>None\<close> on any exception.\<close>

definition transcribe_audio :: "env \<Rightarrow> string \<Rightarrow> string option" where
  "transcribe_audio e name = map_option strip (whisper e name)"

text \<open>\<open>_process_audio_file\<close>. Every exception is caught and logged, so the function
  always returns; the state is all it changes.\<close>

definition process_audio_file ::
    "env \<Rightarrow> string \<Rightarrow> transcription_service \<Rightarrow> transcription_service" where
  "process_audio_file e name st =
     (case file_stat e name of
        None \<Rightarrow> st
      | Some file_size \<Rightarrow>
          let ts = extract_timestamp (clock e) name
          in (case transcribe_audio e name of
                None \<Rightarrow> st
              | Some t \<Rightarrow>
                  if t = [] then st
                  else
                    let s = generate_summary (groq e) t;
                        result = \<lparr>timestamp = isoformat ts, video_start = isoformat ts,
                                  video_end = isoformat ts, filename = name,
                                  transcript = t, summary = s\<rparr>
                    in st\<lparr>latest_transcripts := latest_transcripts st @ [result]\<rparr>))"

subsection \<open>The segment watcher\<close>

text \<open>
  The state of \<open>audio_dir\<close> at a poll: it does not exist; \<open>exists()\<close> raises, because the
  path cannot be examined; it exists but cannot be listed, in which case \<open>glob\<close> yields
  nothing; or it has the given entries.
\<close>

datatype listing = Missing | Inaccessible | Unreadable | Entries "string list"

text \<open>\<open>glob("audio_*.wav")\<close> on one entry (case-sensitive, as on POSIX).\<close>

definition glob_match :: "string \<Rightarrow> bool" where
  "glob_match name =
     (prefix ''audio_'' name \<and> suffix ''.wav'' name \<and> 10 \<le> length name)"

text \<open>The body of the \<open>for\<close> loop of \<open>_check_new_files\<close>, for one file that is not in
  \<open>processed_files\<close>.\<close>

definition dispatch_one ::
    "env \<Rightarrow> string \<Rightarrow> transcription_service \<Rightarrow> transcription_service" where
  "dispatch_one e name st =
     (let st1 = st\<lparr>dispatch_log := dispatch_log st @ [Dispatched name]\<rparr>;
          st2 = process_audio_file e name st1
      in st2\<lparr>processed_files := insert name (processed_files st2),
              dispatch_log := dispatch_log st2 @ [Added name]\<rparr>)"

fun dispatch_all ::
    "env \<Rightarrow> string list \<Rightarrow> transcription_service \<Rightarrow> transcription_service" where
  "dispatch_all e [] st = st"
| "dispatch_all e (name # names) st =
     dispatch_all e names (if name \<notin> processed_files st then dispatch_one e name st else st)"

datatype exn = OSError | ProcessLookupError

text \<open>\<open>_check_new_files\<close>.\<close>

definition check_new_files ::
    "env \<Rightarrow> listing \<Rightarrow> transcription_service \<Rightarrow> exn + transcription_service" where
  "check_new_files e dir st =
     (case dir of
        Missing \<Rightarrow> Inr st
      | Inaccessible \<Rightarrow> Inl OSError
      | Unreadable \<Rightarrow> Inr (dispatch_all e (sort []) st)
      | Entries names \<Rightarrow> Inr (dispatch_all e (sort (filter glob_match names)) st))"

text \<open>One iteration of the loop of \<open>start_monitoring\<close>: an exception of the poll is
  logged and the loop goes on.\<close>

definition poll_once ::
    "env \<Rightarrow> listing \<Rightarrow> transcription_service \<Rightarrow> transcription_service" where
  "poll_once e dir st = (case check_new_files e dir st of Inr st' \<Rightarrow> st' | Inl _ \<Rightarrow> st)"

text \<open>
  The loop of \<open>start_monitoring\<close> runs until \<open>stop_monitoring\<close> clears the flag, which
  another task does while the loop sleeps or waits. A run is given by what happens, in
  order: a poll, with the directory and the outside world as they are then, or a call of
  \<open>stop_monitoring\<close>.
\<close>

datatype tick = Poll env listing | Stop_monitoring

fun monitoring_loop :: "tick list \<Rightarrow> transcription_service \<Rightarrow> transcription_service" where
  "monitoring_loop [] st = st"
| "monitoring_loop (Stop_monitoring # ts) st = monitoring_loop ts (st\<lparr>is_monitoring := False\<rparr>)"
| "monitoring_loop (Poll e dir # ts) st =
     (if is_monitoring st then monitoring_loop ts (poll_once e dir st) else st)"

definition start_monitoring :: "tick list \<Rightarrow> transcription_service \<Rightarrow> transcription_service" where
  "start_monitoring ts st = monitoring_loop ts (st\<lparr>is_monitoring := True\<rparr>)"

text \<open>The files dispatched by a sequence of events, the files dispatched so far, and the
  events that \<open>st'\<close> has beyond \<open>st\<close>.\<close>

definition files_of :: "event list \<Rightarrow> string list" where
  "files_of evs = concat (map (\<lambda>ev. case ev of Dispatched f \<Rightarrow> [f] | Added _ \<Rightarrow> []) evs)"

definition dispatched_files :: "transcription_service \<Rightarrow> string list" where
  "dispatched_files st = files_of (dispatch_log st)"

definition new_events :: "transcription_service \<Rightarrow> transcription_service \<Rightarrow> event list" where
  "new_events st st' = drop (length (dispatch_log st)) (dispatch_log st')"

text \<open>In \<open>evs\<close>, an occurrence of \<open>a\<close> comes before the first occurrence of \<open>b\<close>.\<close>

definition precedes :: "event \<Rightarrow> event \<Rightarrow> event list \<Rightarrow> bool" where
  "precedes a b evs = (a \<in> set (takeWhile (\<lambda>ev. ev \<noteq> b) evs))"

text \<open>
  \<open>extends st st'\<close>: the log of \<open>st'\<close> continues the log of \<open>st\<close>, the set of
  processed files has only grown, and the files dispatched in between are pairwise
  different, were not processed in \<open>st\<close> and are processed in \<open>st'\<close>.
\<close>

definition extends :: "transcription_service \<Rightarrow> transcription_service \<Rightarrow> bool" where
  "extends st st' =
     (\<exists>new. dispatch_log st' = dispatch_log st @ new \<and>
            processed_files st \<subseteq> processed_files st' \<and>
            distinct (files_of new) \<and>
            set (files_of new) \<inter> processed_files st = {} \<and>
            set (files_of new) \<subseteq> processed_files st')"

text \<open>An outside world in which every file can be read, the speech-to-text model returns
  \<open>hello world\<close> after a space, the completion service returns \<open>hello world\<close>, and the
  clock shows 3 November 2026, 09:30:00.5.\<close>

definition hello_env :: env where
  "hello_env =
     \<lparr>file_stat = (\<lambda>_. Some 1920078),
      whisper = (\<lambda>_. Some '' hello world''),
      groq = (\<lambda>_. Some ''hello world''),
      clock = \<lparr>year = 2026, month = 11, day = 3, hour = 9, minute = 30, second = 0,
                microsecond = 500000\<rparr>\<rparr>"

subsection \<open>Retrieval\<close>

text \<open>\<open>get_latest_transcripts\<close>: \<open>self.latest_transcripts[-limit:]\<close>.\<close>

definition get_latest_transcripts ::
    "int \<Rightarrow> transcription_service \<Rightarrow> transcript_record list" where
  "get_latest_transcripts limit st = slice_from (- limit) (latest_transcripts st)"

section \<open>StreamURLFetcher\<close>

text \<open>
  The fields of \<open>StreamURLFetcher\<close>. A point in time is an integer, the number of
  microseconds since a fixed origin. \<open>fetches\<close> is not a field of the class: it counts the
  calls of \<open>_fetch_url_from_page\<close>, each of which launches one browser session.
\<close>

record url_fetcher =
  current_url :: "string option"
  url_expiry :: "int option"
  page_url :: string
  fetches :: nat

definition init_fetcher :: url_fetcher where
  "init_fetcher =
     \<lparr>current_url = None, url_expiry = None, page_url = ''https://www.livenowfox.com/live'',
      fetches = 0\<rparr>"

text \<open>\<open>timedelta(minutes=15)\<close>.\<close>

definition cache_window :: int where
  "cache_window = 15 * 60 * 1000000"

text \<open>
  One call of \<open>get_fresh_url\<close>: its argument, the clock when the cache is checked, what
  \<open>_fetch_url_from_page\<close> would return, and the clock when the new expiry is computed.
\<close>

record call =
  force_refresh :: bool
  now_check :: int
  page :: "string option"
  now_store :: int

text \<open>Python's truth value of a string or \<open>None\<close>.\<close>

definition truthy :: "string option \<Rightarrow> bool" where
  "truthy u = (case u of None \<Rightarrow> False | Some s \<Rightarrow> s \<noteq> [])"

text \<open>\<open>get_fresh_url\<close>.\<close>

definition get_fresh_url :: "call \<Rightarrow> url_fetcher \<Rightarrow> string option \<times> url_fetcher" where
  "get_fresh_url c st =
     (if \<not> force_refresh c \<and> truthy (current_url st) \<and>
         (case url_expiry st of None \<Rightarrow> False | Some e \<Rightarrow> now_check c < e)
      then (current_url st, st)
      else
        let st1 = st\<lparr>fetches := fetches st + 1\<rparr>;
            url = page c
        in if truthy url
           then (url, st1\<lparr>current_url := url, url_expiry := Some (now_store c + cache_window)\<rparr>)
           else (url, st1))"

text \<open>A sequence of calls, each on the state the one before has left.\<close>

fun run_calls :: "call list \<Rightarrow> url_fetcher \<Rightarrow> string option list \<times> url_fetcher" where
  "run_calls [] st = ([], st)"
| "run_calls (c # cs) st =
     (let (u, st1) = get_fresh_url c st;
          (us, st2) = run_calls cs st1
      in (u # us, st2))"

section \<open>StreamService\<close>

text \<open>
  The fields of \<open>StreamService\<close> that its methods read or write; a subprocess handle is the
  process identifier. \<open>proc_ops\<close> and \<open>attempts\<close> are not fields of the class: the first
  records the operations on subprocesses in order, the second counts the iterations of the
  supervision loop.
\<close>

datatype proc_op = Spawn nat | Terminate nat | Wait nat | Kill nat

record stream_service =
  is_running :: bool
  process :: "nat option"
  stream_url :: "string option"
  fetcher :: url_fetcher
  retry_count :: nat
  max_retries :: nat
  proc_ops :: "proc_op list"
  attempts :: nat

definition init_stream_service :: stream_service where
  "init_stream_service =
     \<lparr>is_running = False, process = None, stream_url = None, fetcher = init_fetcher,
      retry_count = 0, max_retries = 3, proc_ops = [], attempts = 0\<rparr>"

text \<open>What the subprocess does to one call of \<open>stop_stream\<close>: whether \<open>terminate()\<close>
  raises (the process is gone), whether the wait of 5 seconds times out, and whether
  \<open>kill()\<close> raises.\<close>

record stop_world =
  terminate_raises :: bool
  wait_times_out :: bool
  kill_raises :: bool

text \<open>\<open>stop_stream\<close>. \<open>Inl (e, st)\<close> is the exception \<open>e\<close>, logged and raised again, with
  the state it leaves.\<close>

definition stop_stream ::
    "stop_world \<Rightarrow> stream_service \<Rightarrow> (exn \<times> stream_service) + stream_service" where
  "stop_stream w st =
     (let st1 = st\<lparr>is_running := False\<rparr>
      in case process st1 of
           None \<Rightarrow> Inr st1
         | Some pid \<Rightarrow>
             if terminate_raises w
             then Inl (ProcessLookupError, st1\<lparr>proc_ops := proc_ops st1 @ [Terminate pid]\<rparr>)
             else if wait_times_out w
             then (if kill_raises w
                   then Inl (ProcessLookupError,
                          st1\<lparr>proc_ops := proc_ops st1 @ [Terminate pid, Wait pid, Kill pid]\<rparr>)
                   else Inr (st1\<lparr>process := None,
                          proc_ops := proc_ops st1 @ [Terminate pid, Wait pid, Kill pid, Wait pid]\<rparr>))
             else Inr (st1\<lparr>process := None,
                          proc_ops := proc_ops st1 @ [Terminate pid, Wait pid]\<rparr>))"

text \<open>The state after a call of \<open>stop_stream\<close> made by another task, whether it returned or
  raised.\<close>

definition after_stop :: "stop_world \<Rightarrow> stream_service \<Rightarrow> stream_service" where
  "after_stop w st = (case stop_stream w st of Inl (e, st') \<Rightarrow> st' | Inr st' \<Rightarrow> st')"

text \<open>
  What happens in one iteration of the loop of \<open>_fetch_and_process_stream\<close>: the call of
  \<open>get_fresh_url\<close>; what the capture does, if it is started (the subprocess cannot be
  created, it exits by itself, or \<open>stop_stream\<close> is called while it runs); and whether
  \<open>stop_stream\<close> is called during the sleep that follows.
\<close>

datatype capture = Spawn_fails | Exits_unrequested nat | Stopped_during_capture nat stop_world

record attempt =
  url_call :: call
  capture_run :: capture
  stop_in_sleep :: "stop_world option"

text \<open>\<open>asyncio.sleep(5)\<close>, during which \<open>stop_stream\<close> may run.\<close>

definition backoff :: "attempt \<Rightarrow> stream_service \<Rightarrow> stream_service" where
  "backoff a st = (case stop_in_sleep a of None \<Rightarrow> st | Some w \<Rightarrow> after_stop w st)"

text \<open>
  \<open>_fetch_and_process_stream\<close>. The iteration that starts with \<open>retry_count = i\<close> meets
  the world \<open>w i\<close>; every iteration that does not leave the loop increments the counter.
\<close>

function fetch_and_process_stream ::
    "(nat \<Rightarrow> attempt) \<Rightarrow> stream_service \<Rightarrow> (exn \<times> stream_service) + stream_service" where
  "fetch_and_process_stream w st =
     (if is_running st \<and> retry_count st < max_retries st
      then
        (let a = w (retry_count st);
             r = get_fresh_url ((url_call a)\<lparr>force_refresh := False\<rparr>) (fetcher st);
             st1 = st\<lparr>stream_url := fst r, fetcher := snd r, attempts := attempts st + 1\<rparr>
         in if \<not> truthy (stream_url st1)
            then fetch_and_process_stream w
                   (backoff a (st1\<lparr>retry_count := retry_count st1 + 1\<rparr>))
            else
              (case capture_run a of
                 Spawn_fails \<Rightarrow>
                   (let st2 = st1\<lparr>retry_count := retry_count st1 + 1\<rparr>
                    in if retry_count st2 < max_retries st2
                       then fetch_and_process_stream w (backoff a st2)
                       else Inl (OSError, st2))
               | Exits_unrequested pid \<Rightarrow>
                   fetch_and_process_stream w
                     (backoff a
                        (st1\<lparr>process := Some pid,
                             proc_ops := proc_ops st1 @ [Spawn pid, Wait pid],
                             retry_count := retry_count st1 + 1\<rparr>))
               | Stopped_during_capture pid sw \<Rightarrow>
                   Inr (after_stop sw
                          (st1\<lparr>process := Some pid,
                               proc_ops := proc_ops st1 @ [Spawn pid, Wait pid]\<rparr>))))
      else Inr st)"
  by pat_completeness auto
termination
  by (relation "measure (\<lambda>(w, st). max_retries st - retry_count st)")
     (auto simp: backoff_def after_stop_def stop_stream_def Let_def split: option.splits)

declare fetch_and_process_stream.simps [simp del]

text \<open>The state in which a call has left the service, whether it returned or raised.\<close>

definition final_state :: "(exn \<times> stream_service) + stream_service \<Rightarrow> stream_service" where
  "final_state r = (case r of Inl (e, st') \<Rightarrow> st' | Inr st' \<Rightarrow> st')"

text \<open>\<open>start_stream\<close>.\<close>

definition start_stream :: "(nat \<Rightarrow> attempt) \<Rightarrow> stream_service \<Rightarrow> stream_service" where
  "start_stream w st =
     (case fetch_and_process_stream w (st\<lparr>is_running := True\<rparr>) of
        Inl (e, st') \<Rightarrow> st'\<lparr>is_running := False\<rparr>
      | Inr st' \<Rightarrow> st')"

subsection \<open>Example worlds\<close>

text \<open>A fetcher whose cache holds a URL that expires at 12:15:00, a call at 12:05:00 and
  a call at 12:20:00 (times counted from 12:00:00).\<close>

definition warm_fetcher :: url_fetcher where
  "warm_fetcher =
     init_fetcher\<lparr>current_url := Some ''https://cdn.example/manifest.m3u8'',
                  url_expiry := Some 900000000, fetches := 1\<rparr>"

definition early_call :: call where
  "early_call =
     \<lparr>force_refresh = False, now_check = 300000000,
      page = Some ''https://cdn.example/manifest.m3u8?te=2'', now_store = 304000000\<rparr>"

definition late_call :: call where
  "late_call =
     \<lparr>force_refresh = False, now_check = 1200000000,
      page = Some ''https://cdn.example/manifest.m3u8?te=2'', now_store = 1204000000\<rparr>"

text \<open>A world in which no manifest URL is ever found, one in which the capture process
  exits by itself every time, and one in which it cannot be created.\<close>

definition no_manifest :: "nat \<Rightarrow> attempt" where
  "no_manifest i =
     \<lparr>url_call = \<lparr>force_refresh = False, now_check = 0, page = None, now_store = 0\<rparr>,
      capture_run = Spawn_fails, stop_in_sleep = None\<rparr>"

definition capture_exits :: "nat \<Rightarrow> attempt" where
  "capture_exits i =
     \<lparr>url_call = early_call, capture_run = Exits_unrequested (4000 + i), stop_in_sleep = None\<rparr>"

definition capture_fails :: "nat \<Rightarrow> attempt" where
  "capture_fails i =
     \<lparr>url_call = early_call, capture_run = Spawn_fails, stop_in_sleep = None\<rparr>"

text \<open>A subprocess that has already exited, so that \<open>terminate()\<close> raises.\<close>

definition gone :: stop_world where
  "gone = \<lparr>terminate_raises = True, wait_times_out = False, kill_raises = False\<rparr>"

section \<open>Properties\<close>

subsection \<open>Words\<close>

lemma split_from_words:
  "w \<in> set (split_from cur s) \<Longrightarrow>
     w \<noteq> [] \<and> set w \<subseteq> set cur \<union> {c \<in> set s. \<not> is_space c}"
proof (induction cur s rule: split_from.induct)
  case (1 cur)
  then show ?case by (cases "cur = []") simp_all
next
  case (2 cur c cs)
  show ?case
  proof (cases "is_space c")
    case True
    show ?thesis
    proof (cases "cur = []")
      case True
      with \<open>is_space c\<close> 2(1) 2(4) show ?thesis by auto
    next
      case False
      with \<open>is_space c\<close> 2(2) 2(4) show ?thesis by auto
    qed
  next
    case False
    with 2(3) 2(4) show ?thesis by auto
  qed
qed

lemma split_ws_words:
  "w \<in> set (split_ws s) \<Longrightarrow> w \<noteq> [] \<and> (\<forall>c \<in> set w. \<not> is_space c)"
  unfolding split_ws_def using split_from_words [of w "[]" s] by auto

lemma split_from_concat:
  "concat (split_from cur s) = cur @ filter (\<lambda>c. \<not> is_space c) s"
  by (induction cur s rule: split_from.induct) auto

lemma split_ws_concat: "concat (split_ws s) = filter (\<lambda>c. \<not> is_space c) s"
  by (simp add: split_ws_def split_from_concat)

subsection \<open>Evaluation of dates\<close>

lemma zero_pad_2: "zero_pad 2 n = [digit_char (n div 10 mod 10), digit_char (n mod 10)]"
  by (simp add: numeral_2_eq_2)

lemma zero_pad_4:
  "zero_pad 4 n = [digit_char (n div 1000 mod 10), digit_char (n div 100 mod 10),
                   digit_char (n div 10 mod 10), digit_char (n mod 10)]"
proof -
  have e: "(4::nat) = Suc (Suc (Suc (Suc 0)))" by simp
  show ?thesis unfolding e by (simp add: div_mult2_eq[symmetric])
qed

lemma zero_pad_6:
  "zero_pad 6 n = [digit_char (n div 100000 mod 10), digit_char (n div 10000 mod 10),
                   digit_char (n div 1000 mod 10), digit_char (n div 100 mod 10),
                   digit_char (n div 10 mod 10), digit_char (n mod 10)]"
proof -
  have e: "(6::nat) = Suc (Suc (Suc (Suc (Suc (Suc 0)))))" by simp
  show ?thesis unfolding e by (simp add: div_mult2_eq[symmetric])
qed

text \<open>The equations that evaluate \<open>extract_timestamp\<close> and \<open>isoformat\<close> on a given
  string.\<close>

lemmas strptime_eval =
  extract_timestamp_def strptime_def matches_def re_Y_def re_m_def re_d_def re_H_def re_M_def
  re_S_def two_def one_def lit_def is_digit_def in_range_def digit_val_def valid_datetime_def
  days_in_month_def is_leap_def isoformat_def digit_char_def zero_pad_2 zero_pad_4 zero_pad_6

subsection \<open>The watcher's log\<close>

lemma process_audio_file_frame:
  "processed_files (process_audio_file e n st) = processed_files st"
  "dispatch_log (process_audio_file e n st) = dispatch_log st"
  "is_monitoring (process_audio_file e n st) = is_monitoring st"
  by (simp_all add: process_audio_file_def Let_def split: option.splits)

lemma dispatch_one_log:
  "dispatch_log (dispatch_one e n st) = dispatch_log st @ [Dispatched n, Added n]"
  by (simp add: dispatch_one_def Let_def process_audio_file_frame)

lemma dispatch_one_processed:
  "processed_files (dispatch_one e n st) = insert n (processed_files st)"
  by (simp add: dispatch_one_def Let_def process_audio_file_frame)

lemma dispatch_all_processed:
  "processed_files (dispatch_all e names st) = processed_files st \<union> set names"
  by (induction names arbitrary: st) (auto simp: dispatch_one_processed)

text \<open>A round over distinct names logs, for each name that is not yet processed, its
  dispatch and then its addition to the set.\<close>

lemma dispatch_all_log:
  "distinct names \<Longrightarrow>
   dispatch_log (dispatch_all e names st) =
     dispatch_log st @
     concat (map (\<lambda>n. [Dispatched n, Added n]) (filter (\<lambda>n. n \<notin> processed_files st) names))"
proof (induction names arbitrary: st)
  case Nil
  then show ?case by simp
next
  case (Cons n names)
  have same: "filter (\<lambda>m. m \<notin> insert n (processed_files st)) names
            = filter (\<lambda>m. m \<notin> processed_files st) names"
    using Cons.prems by (intro filter_cong) auto
  show ?case
  proof (cases "n \<in> processed_files st")
    case True
    with Cons show ?thesis by simp
  next
    case False
    with Cons same show ?thesis
      by (simp add: dispatch_one_log dispatch_one_processed)
  qed
qed

lemma files_of_append: "files_of (xs @ ys) = files_of xs @ files_of ys"
  by (simp add: files_of_def)

lemma files_of_pair: "files_of [Dispatched n, Added n] = [n]"
  by (simp add: files_of_def)

lemma files_of_pairs: "files_of (concat (map (\<lambda>n. [Dispatched n, Added n]) ns)) = ns"
  by (induction ns) (simp_all add: files_of_def)

lemma extends_refl: "extends st st"
  by (simp add: extends_def files_of_def)

lemma extends_trans:
  assumes "extends st1 st2" and "extends st2 st3"
  shows "extends st1 st3"
proof -
  from assms(1) obtain new1 where
    l1: "dispatch_log st2 = dispatch_log st1 @ new1" and
    p1: "processed_files st1 \<subseteq> processed_files st2" and
    d1: "distinct (files_of new1)" and
    i1: "set (files_of new1) \<inter> processed_files st1 = {}" and
    s1: "set (files_of new1) \<subseteq> processed_files st2"
    unfolding extends_def by blast
  from assms(2) obtain new2 where
    l2: "dispatch_log st3 = dispatch_log st2 @ new2" and
    p2: "processed_files st2 \<subseteq> processed_files st3" and
    d2: "distinct (files_of new2)" and
    i2: "set (files_of new2) \<inter> processed_files st2 = {}" and
    s2: "set (files_of new2) \<subseteq> processed_files st3"
    unfolding extends_def by blast
  have "dispatch_log st3 = dispatch_log st1 @ (new1 @ new2)"
    using l1 l2 by simp
  moreover have "processed_files st1 \<subseteq> processed_files st3"
    using p1 p2 by blast
  moreover have "distinct (files_of (new1 @ new2))"
    using d1 d2 s1 i2 by (auto simp: files_of_append)
  moreover have "set (files_of (new1 @ new2)) \<inter> processed_files st1 = {}"
    using i1 i2 p1 by (auto simp: files_of_append)
  moreover have "set (files_of (new1 @ new2)) \<subseteq> processed_files st3"
    using s1 s2 p2 by (auto simp: files_of_append)
  ultimately show ?thesis
    unfolding extends_def by blast
qed

lemma extends_dispatch_one:
  "n \<notin> processed_files st \<Longrightarrow> extends st (dispatch_one e n st)"
  unfolding extends_def
  by (rule exI [of _ "[Dispatched n, Added n]"])
     (auto simp: dispatch_one_log dispatch_one_processed files_of_pair)

lemma extends_dispatch_all: "extends st (dispatch_all e names st)"
proof (induction names arbitrary: st)
  case Nil
  show ?case by (simp add: extends_refl)
next
  case (Cons n names)
  show ?case
  proof (cases "n \<in> processed_files st")
    case True
    with Cons show ?thesis by simp
  next
    case False
    then have "extends st (dispatch_one e n st)" by (rule extends_dispatch_one)
    moreover have "extends (dispatch_one e n st) (dispatch_all e names (dispatch_one e n st))"
      by (rule Cons.IH)
    ultimately show ?thesis using False by (simp add: extends_trans)
  qed
qed

lemma extends_poll_once: "extends st (poll_once e dir st)"
  by (cases dir) (simp_all add: poll_once_def check_new_files_def extends_refl extends_dispatch_all)

lemma extends_flag: "extends st (st\<lparr>is_monitoring := b\<rparr>)"
  by (simp add: extends_def files_of_def)

lemma extends_monitoring_loop: "extends st (monitoring_loop ts st)"
proof (induction ts st rule: monitoring_loop.induct)
  case (1 st)
  show ?case by (simp add: extends_refl)
next
  case (2 ts st)
  from extends_flag [of st False] 2 show ?case
    by (simp add: extends_trans)
next
  case (3 e dir ts st)
  show ?case
  proof (cases "is_monitoring st")
    case True
    with 3 extends_poll_once [of st e dir] show ?thesis
      by (auto intro: extends_trans)
  next
    case False
    then show ?thesis by (simp add: extends_refl)
  qed
qed

lemma extends_start_monitoring: "extends st (start_monitoring ts st)"
  unfolding start_monitoring_def
  using extends_flag [of st True] extends_monitoring_loop [of "st\<lparr>is_monitoring := True\<rparr>" ts]
  by (rule extends_trans)

lemma glob_example:
  "glob_match ''audio_20250101_120000.wav''" "glob_match ''audio_20250101_120100.wav''"
  by (simp_all add: glob_match_def suffix_to_prefix)

lemma sort_example:
  "sort [''audio_20250101_120100.wav'', ''audio_20250101_120000.wav'']
     = [''audio_20250101_120000.wav'', ''audio_20250101_120100.wav'']"
  by code_simp

lemma new_events_prefix: "dispatch_log st' = dispatch_log st @ new \<Longrightarrow> new_events st st' = new"
  by (simp add: new_events_def)

subsection \<open>At most one dispatch\<close>

text \<open>
  C1. In a run of the monitoring loop that starts from a new service, whatever the polls
  find and whatever happens to the transcriptions, no segment is dispatched twice; and
  from any state, a segment that is in the processed set is not dispatched by any later
  poll.
\<close>

theorem segment_dispatched_at_most_once:
  "distinct (dispatched_files (start_monitoring ticks init_service)) \<and>
   (f \<in> processed_files st \<longrightarrow>
      f \<notin> set (files_of (new_events st (start_monitoring ticks st))))"
proof -
  from extends_start_monitoring [of init_service ticks]
  have "distinct (dispatched_files (start_monitoring ticks init_service))"
    by (auto simp: extends_def dispatched_files_def init_service_def)
  moreover from extends_start_monitoring [of st ticks]
  have "f \<in> processed_files st \<longrightarrow>
      f \<notin> set (files_of (new_events st (start_monitoring ticks st)))"
    by (auto simp: extends_def new_events_def)
  ultimately show ?thesis by blast
qed

theorem segment_dispatched_at_most_once_witness:
  "''audio_20250101_120000.wav'' \<in> processed_files (init_service\<lparr>processed_files := {''audio_20250101_120000.wav''}\<rparr>) \<and>
   ''audio_20250101_120000.wav'' \<notin> set (files_of (new_events
       (init_service\<lparr>processed_files := {''audio_20250101_120000.wav''}\<rparr>)
       (start_monitoring [Poll hello_env (Entries [''audio_20250101_120000.wav''])]
          (init_service\<lparr>processed_files := {''audio_20250101_120000.wav''}\<rparr>))))"
  using segment_dispatched_at_most_once
    [of "[Poll hello_env (Entries [''audio_20250101_120000.wav''])]"
        "''audio_20250101_120000.wav''"
        "init_service\<lparr>processed_files := {''audio_20250101_120000.wav''}\<rparr>"]
  by simp

subsection \<open>Which segments a poll dispatches\<close>

text \<open>
  C3, as claimed: the newest segment, which the capture tool is still writing, is never
  dispatched. It fails: with the segments of 12:00:00 and 12:01:00 in the directory, the
  second one being the newest, a poll of a new service dispatches both.
\<close>

theorem newest_segment_dispatched_counterexample:
  "last (sort (filter glob_match [''audio_20250101_120100.wav'', ''audio_20250101_120000.wav'']))
     = ''audio_20250101_120100.wav'' \<and>
   dispatched_files (poll_once hello_env
       (Entries [''audio_20250101_120100.wav'', ''audio_20250101_120000.wav'']) init_service)
     = [''audio_20250101_120000.wav'', ''audio_20250101_120100.wav'']"
  by (simp add: glob_example sort_example poll_once_def check_new_files_def dispatched_files_def
        dispatch_one_log dispatch_one_processed files_of_def init_service_def)

text \<open>
  C3, amended. A poll of a readable directory dispatches every entry that matches
  \<open>audio_*.wav\<close> and is not in the processed set, once, in ascending order of name, and
  nothing else; no entry is held back for being the newest or still open.
\<close>

theorem check_new_files_dispatches_every_unprocessed_match:
  assumes "distinct names" and "check_new_files e (Entries names) st = Inr st'"
  shows "files_of (new_events st st')
           = filter (\<lambda>n. n \<notin> processed_files st) (sort (filter glob_match names))"
proof -
  let ?fs = "sort (filter glob_match names)"
  have "distinct ?fs" using assms(1) by simp
  then have "dispatch_log (dispatch_all e ?fs st) = dispatch_log st @
     concat (map (\<lambda>n. [Dispatched n, Added n]) (filter (\<lambda>n. n \<notin> processed_files st) ?fs))"
    by (rule dispatch_all_log)
  moreover have "st' = dispatch_all e ?fs st"
    using assms(2) by (simp add: check_new_files_def)
  ultimately have "new_events st st' =
     concat (map (\<lambda>n. [Dispatched n, Added n]) (filter (\<lambda>n. n \<notin> processed_files st) ?fs))"
    by (simp add: new_events_def)
  then show ?thesis
    by (simp add: files_of_pairs)
qed

theorem check_new_files_dispatches_every_unprocessed_match_witness:
  "files_of (new_events init_service
      (poll_once hello_env (Entries [''audio_20250101_120000.wav'']) init_service))
   = [''audio_20250101_120000.wav'']"
proof -
  have h1: "distinct [''audio_20250101_120000.wav'']" by simp
  have h2: "check_new_files hello_env (Entries [''audio_20250101_120000.wav'']) init_service
              = Inr (poll_once hello_env (Entries [''audio_20250101_120000.wav'']) init_service)"
    by (simp add: poll_once_def check_new_files_def)
  from check_new_files_dispatches_every_unprocessed_match [OF h1 h2]
  show ?thesis by (simp add: glob_example init_service_def)
qed

subsection \<open>Order of dispatch and marking\<close>

text \<open>
  C4, as claimed: the identifier is added to the processed set before the segment is
  dispatched. It fails: a poll that finds one new segment logs its dispatch first and its
  addition second.
\<close>

theorem dispatch_precedes_add_counterexample:
  "dispatch_log (poll_once hello_env (Entries [''audio_20250101_120000.wav'']) init_service)
     = [Dispatched ''audio_20250101_120000.wav'', Added ''audio_20250101_120000.wav''] \<and>
   \<not> precedes (Added ''audio_20250101_120000.wav'') (Dispatched ''audio_20250101_120000.wav'')
       (dispatch_log (poll_once hello_env (Entries [''audio_20250101_120000.wav'']) init_service))"
  by (simp add: glob_example poll_once_def check_new_files_def dispatch_one_log
        dispatch_one_processed init_service_def precedes_def)

text \<open>
  C4, amended. For every unprocessed segment handled in a polling round the watcher first
  dispatches the segment to the transcription step and adds its identifier to the
  processed set when that step has returned: the events of a round are, for each such
  segment in turn, its dispatch followed by its addition, and the identifier is not in the
  set while the step runs.
\<close>

theorem check_new_files_dispatches_then_marks:
  assumes "distinct names" and "check_new_files e (Entries names) st = Inr st'"
  shows "new_events st st' =
           concat (map (\<lambda>n. [Dispatched n, Added n])
             (filter (\<lambda>n. n \<notin> processed_files st) (sort (filter glob_match names)))) \<and>
         (\<forall>n. n \<notin> processed_files st \<longrightarrow>
            n \<notin> processed_files
                  (process_audio_file e n (st\<lparr>dispatch_log := dispatch_log st @ [Dispatched n]\<rparr>)) \<and>
            n \<in> processed_files (dispatch_one e n st) \<and>
            precedes (Dispatched n) (Added n) (new_events st (dispatch_one e n st)))"
proof -
  let ?fs = "sort (filter glob_match names)"
  have "distinct ?fs" using assms(1) by simp
  then have "dispatch_log (dispatch_all e ?fs st) = dispatch_log st @
     concat (map (\<lambda>n. [Dispatched n, Added n]) (filter (\<lambda>n. n \<notin> processed_files st) ?fs))"
    by (rule dispatch_all_log)
  moreover have "st' = dispatch_all e ?fs st"
    using assms(2) by (simp add: check_new_files_def)
  ultimately have "new_events st st' =
     concat (map (\<lambda>n. [Dispatched n, Added n]) (filter (\<lambda>n. n \<notin> processed_files st) ?fs))"
    by (simp add: new_events_def)
  moreover have "\<forall>n. n \<notin> processed_files st \<longrightarrow>
            n \<notin> processed_files
                  (process_audio_file e n (st\<lparr>dispatch_log := dispatch_log st @ [Dispatched n]\<rparr>)) \<and>
            n \<in> processed_files (dispatch_one e n st) \<and>
            precedes (Dispatched n) (Added n) (new_events st (dispatch_one e n st))"
    by (simp add: process_audio_file_frame dispatch_one_processed dispatch_one_log
          new_events_def precedes_def)
  ultimately show ?thesis by blast
qed

theorem check_new_files_dispatches_then_marks_witness:
  "new_events init_service
      (poll_once hello_env (Entries [''audio_20250101_120000.wav'']) init_service)
   = [Dispatched ''audio_20250101_120000.wav'', Added ''audio_20250101_120000.wav'']"
proof -
  have h1: "distinct [''audio_20250101_120000.wav'']" by simp
  have h2: "check_new_files hello_env (Entries [''audio_20250101_120000.wav'']) init_service
              = Inr (poll_once hello_env (Entries [''audio_20250101_120000.wav'']) init_service)"
    by (simp add: poll_once_def check_new_files_def)
  from check_new_files_dispatches_then_marks [OF h1 h2]
  show ?thesis by (simp add: glob_example init_service_def)
qed

subsection \<open>What processing a segment changes\<close>

text \<open>
  C5. The record assembled for a segment is appended to the transcript sequence, but it is
  not pushed anywhere else: for the segment \<open>audio_20250101_120000.wav\<close>, transcribed and
  summarized as \<open>hello world\<close>, the append is the only effect of the processing step. The
  service holds no broadcaster and the step calls none.
\<close>

theorem process_audio_file_appends_only:
  "process_audio_file hello_env ''audio_20250101_120000.wav'' init_service
   = init_service\<lparr>latest_transcripts :=
       [\<lparr>timestamp = ''2025-01-01T12:00:00'', video_start = ''2025-01-01T12:00:00'',
         video_end = ''2025-01-01T12:00:00'', filename = ''audio_20250101_120000.wav'',
         transcript = ''hello world'', summary = ''hello world''\<rparr>]\<rparr>"
  by (simp add: process_audio_file_def hello_env_def init_service_def transcribe_audio_def
        strip_def is_space_def generate_summary_def strptime_eval)

subsection \<open>The URL cache\<close>

lemma get_fresh_url_hit:
  "current_url st = Some u \<Longrightarrow> u \<noteq> [] \<Longrightarrow> url_expiry st = Some e \<Longrightarrow>
   \<not> force_refresh c \<Longrightarrow> now_check c < e \<Longrightarrow> get_fresh_url c st = (Some u, st)"
  by (simp add: get_fresh_url_def truthy_def)

lemma run_calls_hits:
  "current_url st = Some u \<Longrightarrow> u \<noteq> [] \<Longrightarrow> url_expiry st = Some e \<Longrightarrow>
   \<forall>c \<in> set cs. \<not> force_refresh c \<and> now_check c < e \<Longrightarrow>
   run_calls cs st = (replicate (length cs) (Some u), st)"
  by (induction cs) (simp_all add: get_fresh_url_hit)

lemma get_fresh_url_fetches:
  "fetches (snd (get_fresh_url c st)) \<le> fetches st + 1"
  by (simp add: get_fresh_url_def Let_def)

lemma get_fresh_url_cached:
  "truthy (fst (get_fresh_url c st)) \<Longrightarrow>
   current_url (snd (get_fresh_url c st)) = fst (get_fresh_url c st)"
  by (simp add: get_fresh_url_def Let_def split: if_splits)

lemma get_fresh_url_expired:
  "url_expiry st = Some e \<Longrightarrow> e \<le> now_check c \<Longrightarrow>
   fetches (snd (get_fresh_url c st)) = fetches st + 1"
  by (simp add: get_fresh_url_def Let_def)

text \<open>The cache never holds an empty URL, and it holds an expiry exactly when it holds a URL.\<close>

lemma get_fresh_url_cache_ok:
  "truthy (current_url st) = (url_expiry st \<noteq> None) \<Longrightarrow> current_url st \<noteq> Some [] \<Longrightarrow>
   truthy (current_url (snd (get_fresh_url c st))) = (url_expiry (snd (get_fresh_url c st)) \<noteq> None) \<and>
   current_url (snd (get_fresh_url c st)) \<noteq> Some []"
  by (auto simp: get_fresh_url_def Let_def truthy_def split: option.splits)

lemma run_calls_cache_ok:
  "truthy (current_url st) = (url_expiry st \<noteq> None) \<Longrightarrow> current_url st \<noteq> Some [] \<Longrightarrow>
   truthy (current_url (snd (run_calls cs st))) = (url_expiry (snd (run_calls cs st)) \<noteq> None) \<and>
   current_url (snd (run_calls cs st)) \<noteq> Some []"
proof (induction cs arbitrary: st)
  case Nil
  then show ?case by simp
next
  case (Cons c cs)
  from get_fresh_url_cache_ok [OF Cons.prems, of c]
  have "truthy (current_url (snd (run_calls cs (snd (get_fresh_url c st)))))
          = (url_expiry (snd (run_calls cs (snd (get_fresh_url c st)))) \<noteq> None) \<and>
        current_url (snd (run_calls cs (snd (get_fresh_url c st)))) \<noteq> Some []"
    by (intro Cons.IH) simp_all
  then show ?case by (simp add: case_prod_unfold Let_def)
qed

text \<open>
  C7. When the cache holds a URL and the clock is before its expiry, a call without
  \<open>force_refresh\<close> returns the cached URL and leaves the state as it is, the count of
  fetches included; so do any number of such calls. A call that returns a URL, followed by
  calls before the expiry then in the cache, makes at most one fetch in all. Once the
  expiry has passed, the next call makes exactly one fetch.
\<close>

theorem cached_url_reused:
  "(current_url st = Some u \<and> u \<noteq> [] \<and> url_expiry st = Some e \<longrightarrow>
      (\<not> force_refresh c \<and> now_check c < e \<longrightarrow> get_fresh_url c st = (Some u, st)) \<and>
      ((\<forall>c \<in> set cs. \<not> force_refresh c \<and> now_check c < e) \<longrightarrow>
         run_calls cs st = (replicate (length cs) (Some u), st)) \<and>
      (e \<le> now_check c \<longrightarrow> fetches (snd (get_fresh_url c st)) = fetches st + 1)) \<and>
   (truthy (fst (get_fresh_url c0 st0)) \<and>
    url_expiry (snd (get_fresh_url c0 st0)) = Some e1 \<and>
    (\<forall>c \<in> set cs. \<not> force_refresh c \<and> now_check c < e1) \<longrightarrow>
      fetches (snd (run_calls (c0 # cs) st0)) \<le> fetches st0 + 1)"
proof -
  have first: "current_url st = Some u \<and> u \<noteq> [] \<and> url_expiry st = Some e \<longrightarrow>
      (\<not> force_refresh c \<and> now_check c < e \<longrightarrow> get_fresh_url c st = (Some u, st)) \<and>
      ((\<forall>c \<in> set cs. \<not> force_refresh c \<and> now_check c < e) \<longrightarrow>
         run_calls cs st = (replicate (length cs) (Some u), st)) \<and>
      (e \<le> now_check c \<longrightarrow> fetches (snd (get_fresh_url c st)) = fetches st + 1)"
    using get_fresh_url_hit [of st u e c] run_calls_hits [of st u e cs]
      get_fresh_url_expired [of st e c]
    by blast
  have total: "fetches (snd (run_calls (c0 # cs) st0)) \<le> fetches st0 + 1"
    if t: "truthy (fst (get_fresh_url c0 st0))"
    and x: "url_expiry (snd (get_fresh_url c0 st0)) = Some e1"
    and w: "\<forall>c \<in> set cs. \<not> force_refresh c \<and> now_check c < e1"
  proof -
    let ?st1 = "snd (get_fresh_url c0 st0)"
    from t obtain u1 where u1: "fst (get_fresh_url c0 st0) = Some u1" "u1 \<noteq> []"
      by (auto simp: truthy_def split: option.splits)
    with get_fresh_url_cached [OF t] have "current_url ?st1 = Some u1" by simp
    from run_calls_hits [OF this u1(2) x w]
    have "snd (run_calls cs ?st1) = ?st1" by simp
    then have "snd (run_calls (c0 # cs) st0) = ?st1"
      by (simp add: case_prod_unfold Let_def)
    with get_fresh_url_fetches [of c0 st0] show ?thesis by simp
  qed
  from first total show ?thesis by blast
qed

theorem cached_url_reused_witness:
  "get_fresh_url early_call warm_fetcher
     = (Some ''https://cdn.example/manifest.m3u8'', warm_fetcher) \<and>
   run_calls [early_call, early_call] warm_fetcher
     = ([Some ''https://cdn.example/manifest.m3u8'', Some ''https://cdn.example/manifest.m3u8''],
        warm_fetcher) \<and>
   fetches (snd (get_fresh_url late_call warm_fetcher)) = 2 \<and>
   fetches (snd (run_calls [early_call, early_call, early_call] init_fetcher)) \<le> 1"
  using cached_url_reused [of warm_fetcher "''https://cdn.example/manifest.m3u8''" 900000000
          early_call "[early_call, early_call]" early_call init_fetcher 1204000000]
        cached_url_reused [of warm_fetcher "''https://cdn.example/manifest.m3u8''" 900000000
          late_call "[]" early_call init_fetcher 1204000000]
  by (simp add: warm_fetcher_def early_call_def late_call_def init_fetcher_def get_fresh_url_def
        truthy_def cache_window_def Let_def)

subsection \<open>The supervision loop\<close>

lemma after_stop_frame:
  "retry_count (after_stop sw st) = retry_count st"
  "max_retries (after_stop sw st) = max_retries st"
  "attempts (after_stop sw st) = attempts st"
  by (simp_all add: after_stop_def stop_stream_def Let_def split: option.splits)

lemma backoff_frame:
  "retry_count (backoff a st) = retry_count st"
  "max_retries (backoff a st) = max_retries st"
  "attempts (backoff a st) = attempts st"
  by (simp_all add: backoff_def after_stop_frame split: option.splits)

lemma loop_exit:
  "\<not> (is_running st \<and> retry_count st < max_retries st) \<Longrightarrow>
   fetch_and_process_stream w st = Inr st"
  by (subst fetch_and_process_stream.simps) (simp only: if_False)

text \<open>One iteration: the loop is left with an exception or normally, or it goes on with
  the retry counter incremented; in each case one more attempt has been made.\<close>

lemma loop_step:
  assumes "is_running st" and "retry_count st < max_retries st"
  shows "\<exists>s'. attempts s' = attempts st + 1 \<and> max_retries s' = max_retries st \<and>
           (fetch_and_process_stream w st = Inl (OSError, s') \<or>
            fetch_and_process_stream w st = Inr s' \<or>
            (retry_count s' = retry_count st + 1 \<and>
             fetch_and_process_stream w st = fetch_and_process_stream w s'))"
proof -
  define a where "a = w (retry_count st)"
  define r where "r = get_fresh_url ((url_call a)\<lparr>force_refresh := False\<rparr>) (fetcher st)"
  define st1 where "st1 = st\<lparr>stream_url := fst r, fetcher := snd r, attempts := attempts st + 1\<rparr>"
  have unfold: "fetch_and_process_stream w st =
     (if \<not> truthy (stream_url st1)
      then fetch_and_process_stream w (backoff a (st1\<lparr>retry_count := retry_count st1 + 1\<rparr>))
      else
        (case capture_run a of
           Spawn_fails \<Rightarrow>
             (let st2 = st1\<lparr>retry_count := retry_count st1 + 1\<rparr>
              in if retry_count st2 < max_retries st2
                 then fetch_and_process_stream w (backoff a st2)
                 else Inl (OSError, st2))
         | Exits_unrequested pid \<Rightarrow>
             fetch_and_process_stream w
               (backoff a
                  (st1\<lparr>process := Some pid,
                       proc_ops := proc_ops st1 @ [Spawn pid, Wait pid],
                       retry_count := retry_count st1 + 1\<rparr>))
         | Stopped_during_capture pid sw \<Rightarrow>
             Inr (after_stop sw
                    (st1\<lparr>process := Some pid,
                         proc_ops := proc_ops st1 @ [Spawn pid, Wait pid]\<rparr>))))"
    unfolding a_def r_def st1_def
    by (subst fetch_and_process_stream.simps) (simp only: assms Let_def simp_thms if_True)
  show ?thesis
  proof (cases "truthy (stream_url st1)")
    case False
    with unfold have "fetch_and_process_stream w st =
        fetch_and_process_stream w (backoff a (st1\<lparr>retry_count := retry_count st1 + 1\<rparr>))"
      by simp
    then show ?thesis
      by (intro exI [of _ "backoff a (st1\<lparr>retry_count := retry_count st1 + 1\<rparr>)"])
         (simp add: backoff_frame st1_def)
  next
    case True
    show ?thesis
    proof (cases "capture_run a")
      case Spawn_fails
      show ?thesis
      proof (cases "retry_count st1 + 1 < max_retries st1")
        case True
        with unfold Spawn_fails \<open>truthy (stream_url st1)\<close>
        have "fetch_and_process_stream w st =
            fetch_and_process_stream w (backoff a (st1\<lparr>retry_count := retry_count st1 + 1\<rparr>))"
          by (simp add: Let_def)
        then show ?thesis
          by (intro exI [of _ "backoff a (st1\<lparr>retry_count := retry_count st1 + 1\<rparr>)"])
             (simp add: backoff_frame st1_def)
      next
        case False
        with unfold Spawn_fails \<open>truthy (stream_url st1)\<close>
        have "fetch_and_process_stream w st = Inl (OSError, st1\<lparr>retry_count := retry_count st1 + 1\<rparr>)"
          by (simp add: Let_def)
        then show ?thesis
          by (intro exI [of _ "st1\<lparr>retry_count := retry_count st1 + 1\<rparr>"])
             (simp add: st1_def)
      qed
    next
      case (Exits_unrequested pid)
      with unfold True
      have "fetch_and_process_stream w st =
          fetch_and_process_stream w
               (backoff a
                  (st1\<lparr>process := Some pid,
                       proc_ops := proc_ops st1 @ [Spawn pid, Wait pid],
                       retry_count := retry_count st1 + 1\<rparr>))"
        by simp
      then show ?thesis
        by (intro exI [of _ "backoff a
                  (st1\<lparr>process := Some pid,
                       proc_ops := proc_ops st1 @ [Spawn pid, Wait pid],
                       retry_count := retry_count st1 + 1\<rparr>)"])
           (simp add: backoff_frame st1_def)
    next
      case (Stopped_during_capture pid sw)
      with unfold True
      have "fetch_and_process_stream w st =
          Inr (after_stop sw
                    (st1\<lparr>process := Some pid,
                         proc_ops := proc_ops st1 @ [Spawn pid, Wait pid]\<rparr>))"
        by simp
      then show ?thesis
        by (intro exI [of _ "after_stop sw
                    (st1\<lparr>process := Some pid,
                         proc_ops := proc_ops st1 @ [Spawn pid, Wait pid]\<rparr>)"])
           (simp add: after_stop_frame st1_def)
    qed
  qed
qed

lemma loop_attempts_bounded_aux:
  "max_retries st - retry_count st = n \<Longrightarrow>
   attempts (final_state (fetch_and_process_stream w st)) \<le> attempts st + n"
proof (induction n arbitrary: st)
  case 0
  then have "\<not> (is_running st \<and> retry_count st < max_retries st)" by simp
  then show ?case by (simp add: loop_exit final_state_def)
next
  case (Suc n)
  show ?case
  proof (cases "is_running st")
    case False
    then show ?thesis by (simp add: loop_exit final_state_def)
  next
    case True
    from Suc.prems have lt: "retry_count st < max_retries st" by simp
    from loop_step [OF True lt, of w] obtain s' where
      a: "attempts s' = attempts st + 1" and m: "max_retries s' = max_retries st" and
      alt: "fetch_and_process_stream w st = Inl (OSError, s') \<or>
            fetch_and_process_stream w st = Inr s' \<or>
            (retry_count s' = retry_count st + 1 \<and>
             fetch_and_process_stream w st = fetch_and_process_stream w s')"
      by blast
    from alt show ?thesis
    proof (elim disjE conjE)
      assume "fetch_and_process_stream w st = Inl (OSError, s')"
      with a show ?thesis by (simp add: final_state_def)
    next
      assume "fetch_and_process_stream w st = Inr s'"
      with a show ?thesis by (simp add: final_state_def)
    next
      assume r: "retry_count s' = retry_count st + 1"
        and eq: "fetch_and_process_stream w st = fetch_and_process_stream w s'"
      from r m Suc.prems have "max_retries s' - retry_count s' = n" by simp
      from Suc.IH [OF this] a eq show ?thesis by simp
    qed
  qed
qed

lemma loop_attempts_bounded:
  "attempts (final_state (fetch_and_process_stream w st))
     \<le> attempts st + (max_retries st - retry_count st)"
  by (rule loop_attempts_bounded_aux) simp

text \<open>
  C2. The loop makes at most \<open>max_retries\<close> attempts (\<open>loop_attempts_bounded\<close>) and
  stops when the counter reaches \<open>max_retries\<close>, but the session does not become a stopped
  one: when no manifest URL is found three times, or the capture process exits by itself
  three times, \<open>start_stream\<close> returns with the counter at 3 and \<open>is_running\<close> still
  true, and no error is raised. Only when the third failure is an exception of the capture
  is \<open>is_running\<close> cleared.
\<close>

theorem retries_exhausted_still_running:
  "retry_count (start_stream no_manifest init_stream_service) = 3 \<and>
   max_retries (start_stream no_manifest init_stream_service) = 3 \<and>
   attempts (start_stream no_manifest init_stream_service) = 3 \<and>
   is_running (start_stream no_manifest init_stream_service) \<and>
   is_running (start_stream capture_exits init_stream_service) \<and>
   \<not> is_running (start_stream capture_fails init_stream_service)"
  by code_simp

subsection \<open>Stopping\<close>

text \<open>
  C8, as claimed: \<open>stop_stream\<close> never raises on repeated calls. It fails: after the
  capture process has exited by itself three times the service still holds the handle of
  the last one; \<open>terminate()\<close> on it raises, \<open>stop_stream\<close> raises that again and
  keeps the handle, and so does the next call.
\<close>

theorem stop_stream_raises_counterexample:
  "process (start_stream capture_exits init_stream_service) = Some 4002 \<and>
   is_running (start_stream capture_exits init_stream_service) \<and>
   stop_stream gone (start_stream capture_exits init_stream_service)
     = Inl (ProcessLookupError,
            final_state (stop_stream gone (start_stream capture_exits init_stream_service))) \<and>
   process (final_state (stop_stream gone (start_stream capture_exits init_stream_service)))
     = Some 4002 \<and>
   isl (stop_stream gone
          (final_state (stop_stream gone (start_stream capture_exits init_stream_service))))"
  by code_simp

text \<open>
  C8, amended. Called when the service holds no subprocess handle, \<open>stop_stream\<close> clears
  \<open>is_running\<close>, returns, and performs no subprocess operation; so it returns on a
  service that was never started, and after a call that has returned every further call
  returns and changes nothing. Called when the service holds a handle, it clears
  \<open>is_running\<close> and terminates the subprocess: if \<open>terminate()\<close> raises, or the wait
  times out and \<open>kill()\<close> raises, it raises the exception again and keeps the handle, so
  that a repeated call whose \<open>terminate()\<close> raises again raises again; otherwise it
  returns with the handle cleared.
\<close>

theorem stop_stream_idempotent:
  "(process st = None \<longrightarrow> stop_stream w st = Inr (st\<lparr>is_running := False\<rparr>)) \<and>
   stop_stream w init_stream_service = Inr init_stream_service \<and>
   (stop_stream w st = Inr st' \<longrightarrow> stop_stream w' st' = Inr st') \<and>
   (process st = Some pid \<and> terminate_raises w \<longrightarrow>
      stop_stream w st
        = Inl (ProcessLookupError,
               st\<lparr>is_running := False, proc_ops := proc_ops st @ [Terminate pid]\<rparr>) \<and>
      isl (stop_stream w (final_state (stop_stream w st)))) \<and>
   (process st = Some pid \<and> \<not> terminate_raises w \<and> wait_times_out w \<and> kill_raises w \<longrightarrow>
      stop_stream w st
        = Inl (ProcessLookupError,
               st\<lparr>is_running := False,
                  proc_ops := proc_ops st @ [Terminate pid, Wait pid, Kill pid]\<rparr>)) \<and>
   (process st = Some pid \<and> \<not> terminate_raises w \<and> \<not> (wait_times_out w \<and> kill_raises w) \<longrightarrow>
      stop_stream w st
        = Inr (st\<lparr>is_running := False, process := None,
                  proc_ops := proc_ops st @
                    (if wait_times_out w then [Terminate pid, Wait pid, Kill pid, Wait pid]
                     else [Terminate pid, Wait pid])\<rparr>))"
  by (auto simp: stop_stream_def final_state_def Let_def init_stream_service_def
        split: option.splits if_splits)

theorem stop_stream_idempotent_witness:
  "stop_stream gone (init_stream_service\<lparr>is_running := True\<rparr>) = Inr init_stream_service \<and>
   stop_stream gone init_stream_service = Inr init_stream_service \<and>
   stop_stream gone (init_stream_service\<lparr>is_running := True, process := Some 4002\<rparr>)
     = Inl (ProcessLookupError,
            init_stream_service\<lparr>process := Some 4002, proc_ops := [Terminate 4002]\<rparr>) \<and>
   stop_stream \<lparr>terminate_raises = False, wait_times_out = True, kill_raises = True\<rparr>
       (init_stream_service\<lparr>is_running := True, process := Some 4002\<rparr>)
     = Inl (ProcessLookupError,
            init_stream_service\<lparr>process := Some 4002,
               proc_ops := [Terminate 4002, Wait 4002, Kill 4002]\<rparr>) \<and>
   stop_stream \<lparr>terminate_raises = False, wait_times_out = False, kill_raises = False\<rparr>
       (init_stream_service\<lparr>is_running := True, process := Some 4002\<rparr>)
     = Inr (init_stream_service\<lparr>proc_ops := [Terminate 4002, Wait 4002]\<rparr>)"
  using stop_stream_idempotent [of "init_stream_service\<lparr>is_running := True\<rparr>" gone
          init_stream_service gone 0]
        stop_stream_idempotent [of "init_stream_service\<lparr>is_running := True, process := Some 4002\<rparr>"
          gone init_stream_service gone 4002]
        stop_stream_idempotent [of "init_stream_service\<lparr>is_running := True, process := Some 4002\<rparr>"
          "\<lparr>terminate_raises = False, wait_times_out = True, kill_raises = True\<rparr>"
          init_stream_service gone 4002]
        stop_stream_idempotent [of "init_stream_service\<lparr>is_running := True, process := Some 4002\<rparr>"
          "\<lparr>terminate_raises = False, wait_times_out = False, kill_raises = False\<rparr>"
          init_stream_service gone 4002]
  by (simp add: init_stream_service_def gone_def)

subsection \<open>Parsing the names of segments\<close>

lemma digit_cases: "k < 10 \<Longrightarrow> k \<in> {0, 1, 2, 3, 4, 5, 6, 7, 8, 9 :: nat}"
  by auto

lemma of_char_digit_char: "n < 10 \<Longrightarrow> (of_char (digit_char n) :: nat) = 48 + n"
  using digit_cases [of n] by (auto simp: digit_char_def)

lemma digit_char_eq_iff: "n < 10 \<Longrightarrow> (c = digit_char n) = ((of_char c :: nat) = 48 + n)"
proof
  assume "n < 10" and "c = digit_char n"
  then show "(of_char c :: nat) = 48 + n" by (simp add: of_char_digit_char)
next
  assume n: "n < 10" and c: "(of_char c :: nat) = 48 + n"
  then have "(of_char c :: nat) = of_char (digit_char n)" by (simp add: of_char_digit_char)
  then show "c = digit_char n" by simp
qed

lemma digit_char_not_space: "n < 10 \<Longrightarrow> digit_char n \<noteq> CHR '' ''"
  using digit_cases [of n] by (auto simp: digit_char_def)

lemma in_range_digit_char:
  "n < 10 \<Longrightarrow> in_range lo hi (digit_char n) = ((of_char lo :: nat) \<le> 48 + n \<and> 48 + n \<le> (of_char hi :: nat))"
  by (simp add: in_range_def of_char_digit_char)

lemma is_digit_digit_char: "n < 10 \<Longrightarrow> is_digit (digit_char n)"
  by (simp add: is_digit_def in_range_digit_char)

lemma digit_val_digit_char: "n < 10 \<Longrightarrow> digit_val (digit_char n) = n"
  by (simp add: digit_val_def of_char_digit_char)

lemma two_digit_chars:
  "a < 10 \<Longrightarrow> b < 10 \<Longrightarrow>
   two p q (digit_char a # digit_char b # r) =
     (if p (digit_char a) \<and> q (digit_char b) then [(10 * a + b, r)] else [])"
  by (simp add: two_def digit_val_digit_char)

lemma re_m_first:
  assumes "a < 10" "b < 10" "1 \<le> 10 * a + b" "10 * a + b \<le> 12"
  shows "\<exists>ys. re_m (digit_char a # digit_char b # r) = (10 * a + b, r) # ys"
proof -
  from assms have "(a = 0 \<and> 1 \<le> b) \<or> (a = 1 \<and> b \<le> 2)" by arith
  then show ?thesis
    using assms(2)
    by (auto simp: re_m_def two_digit_chars in_range_digit_char digit_char_eq_iff)
qed

lemma re_d_first:
  assumes "a < 10" "b < 10" "1 \<le> 10 * a + b" "10 * a + b \<le> 31"
  shows "\<exists>ys. re_d (digit_char a # digit_char b # r) = (10 * a + b, r) # ys"
proof -
  from assms have "(a = 0 \<and> 1 \<le> b) \<or> a = 1 \<or> a = 2 \<or> (a = 3 \<and> b \<le> 1)" by arith
  then show ?thesis
    using assms(2)
    by (auto simp: re_d_def two_digit_chars in_range_digit_char digit_char_eq_iff
          digit_char_not_space is_digit_digit_char)
qed

lemma re_H_first:
  assumes "a < 10" "b < 10" "10 * a + b \<le> 23"
  shows "\<exists>ys. re_H (digit_char a # digit_char b # r) = (10 * a + b, r) # ys"
proof -
  from assms have "a = 0 \<or> a = 1 \<or> (a = 2 \<and> b \<le> 3)" by arith
  then show ?thesis
    using assms(2)
    by (auto simp: re_H_def two_digit_chars in_range_digit_char digit_char_eq_iff
          is_digit_digit_char)
qed

lemma re_M_first:
  assumes "a < 10" "b < 10" "10 * a + b \<le> 59"
  shows "\<exists>ys. re_M (digit_char a # digit_char b # r) = (10 * a + b, r) # ys"
proof -
  from assms have "a \<le> 5" by arith
  then show ?thesis
    using assms(1,2)
    by (simp add: re_M_def two_digit_chars in_range_digit_char is_digit_digit_char)
qed

lemma re_S_first:
  assumes "a < 10" "b < 10" "10 * a + b \<le> 59"
  shows "\<exists>ys. re_S (digit_char a # digit_char b # r) = (10 * a + b, r) # ys"
proof -
  from assms have "a \<le> 5" by arith
  then show ?thesis
    using assms(1,2)
    by (simp add: re_S_def two_digit_chars in_range_digit_char is_digit_digit_char
          digit_char_eq_iff)
qed

lemma re_Y_digits:
  "a < 10 \<Longrightarrow> b < 10 \<Longrightarrow> c < 10 \<Longrightarrow> d < 10 \<Longrightarrow>
   re_Y (digit_char a # digit_char b # digit_char c # digit_char d # r)
     = [(1000 * a + 100 * b + 10 * c + d, r)]"
  by (simp add: re_Y_def is_digit_digit_char digit_val_digit_char)

lemma bind_first:
  "xs = x # ys \<Longrightarrow> f x = y # zs \<Longrightarrow> \<exists>ws. List.bind xs f = y # ws"
  by (simp add: List.bind_def)

lemma two_digits_value:
  assumes "v < 100"
  shows "10 * (v div 10 mod 10) + v mod 10 = (v::nat)"
proof -
  from assms have "v div 10 < 10" by (simp add: div_less_iff_less_mult)
  then have "v div 10 mod 10 = v div 10" by simp
  then show ?thesis by simp
qed

lemma four_digits_value:
  assumes "v < 10000"
  shows "1000 * (v div 1000 mod 10) + 100 * (v div 100 mod 10) + 10 * (v div 10 mod 10) + v mod 10
           = (v::nat)"
proof -
  define q1 where "q1 = v div 10"
  define q2 where "q2 = q1 div 10"
  define q3 where "q3 = q2 div 10"
  have d2: "v div 100 = q2" unfolding q2_def q1_def by (simp add: div_mult2_eq [symmetric])
  have d3: "v div 1000 = q3" unfolding q3_def q2_def q1_def by (simp add: div_mult2_eq [symmetric])
  from assms have "q3 < 10" unfolding d3 [symmetric] by (simp add: div_less_iff_less_mult)
  then have m3: "q3 mod 10 = q3" by simp
  have e1: "10 * q1 + v mod 10 = v" unfolding q1_def by simp
  have e2: "10 * q2 + q1 mod 10 = q1" unfolding q2_def by simp
  have e3: "10 * q3 + q2 mod 10 = q2" unfolding q3_def by simp
  define r0 where "r0 = v mod 10"
  define r1 where "r1 = q1 mod 10"
  define r2 where "r2 = q2 mod 10"
  from e1 e2 e3 have "1000 * q3 + 100 * r2 + 10 * r1 + r0 = v"
    unfolding r0_def [symmetric] r1_def [symmetric] r2_def [symmetric] by linarith
  then show ?thesis
    unfolding d2 d3 m3 r0_def r1_def r2_def q1_def [symmetric] .
qed


lemma mod10_less: "(n::nat) mod 10 < 10"
  by simp

lemma re_Y_pad:
  assumes "v < 10000"
  shows "re_Y (zero_pad 4 v @ r) = [(v, r)]"
proof -
  have step: "re_Y (zero_pad 4 v @ r) =
      [(1000 * (v div 1000 mod 10) + 100 * (v div 100 mod 10) + 10 * (v div 10 mod 10) + v mod 10, r)]"
    unfolding zero_pad_4
    using re_Y_digits [of "v div 1000 mod 10" "v div 100 mod 10" "v div 10 mod 10" "v mod 10" r]
    by simp
  show ?thesis unfolding step four_digits_value [OF assms] by (rule refl)
qed

lemma re_m_pad:
  assumes "1 \<le> v" "v \<le> 12"
  shows "\<exists>ys. re_m (zero_pad 2 v @ r) = (v, r) # ys"
proof -
  from assms have v: "10 * (v div 10 mod 10) + v mod 10 = v" by (intro two_digits_value) simp
  from re_m_first [of "v div 10 mod 10" "v mod 10" r] assms v
  show ?thesis by (simp add: zero_pad_2)
qed

lemma re_d_pad:
  assumes "1 \<le> v" "v \<le> 31"
  shows "\<exists>ys. re_d (zero_pad 2 v @ r) = (v, r) # ys"
proof -
  from assms have v: "10 * (v div 10 mod 10) + v mod 10 = v" by (intro two_digits_value) simp
  from re_d_first [of "v div 10 mod 10" "v mod 10" r] assms v
  show ?thesis by (simp add: zero_pad_2)
qed

lemma re_H_pad:
  assumes "v \<le> 23"
  shows "\<exists>ys. re_H (zero_pad 2 v @ r) = (v, r) # ys"
proof -
  from assms have v: "10 * (v div 10 mod 10) + v mod 10 = v" by (intro two_digits_value) simp
  from re_H_first [of "v div 10 mod 10" "v mod 10" r] assms v
  show ?thesis by (simp add: zero_pad_2)
qed

lemma re_M_pad:
  assumes "v \<le> 59"
  shows "\<exists>ys. re_M (zero_pad 2 v @ r) = (v, r) # ys"
proof -
  from assms have v: "10 * (v div 10 mod 10) + v mod 10 = v" by (intro two_digits_value) simp
  from re_M_first [of "v div 10 mod 10" "v mod 10" r] assms v
  show ?thesis by (simp add: zero_pad_2)
qed

lemma re_S_pad:
  assumes "v \<le> 59"
  shows "\<exists>ys. re_S (zero_pad 2 v @ r) = (v, r) # ys"
proof -
  from assms have v: "10 * (v div 10 mod 10) + v mod 10 = v" by (intro two_digits_value) simp
  from re_S_first [of "v div 10 mod 10" "v mod 10" r] assms v
  show ?thesis by (simp add: zero_pad_2)
qed

lemma days_in_month_le: "days_in_month y m \<le> 31"
  by (simp add: days_in_month_def)

lemma matches_canonical:
  assumes "valid_datetime y m d h mi s"
  shows "\<exists>ws. matches (zero_pad 4 y @ zero_pad 2 m @ zero_pad 2 d @ ''_'' @
                        zero_pad 2 h @ zero_pad 2 mi @ zero_pad 2 s)
           = (\<lparr>year = y, month = m, day = d, hour = h, minute = mi, second = s,
                microsecond = 0\<rparr>, []) # ws"
proof -
  from assms days_in_month_le [of y m] have b:
    "y < 10000" "1 \<le> m" "m \<le> 12" "1 \<le> d" "d \<le> 31" "h \<le> 23" "mi \<le> 59" "s \<le> 59"
    by (simp_all add: valid_datetime_def)
  let ?r6 = "zero_pad 2 s"
  let ?r5 = "zero_pad 2 mi @ ?r6"
  let ?r4 = "zero_pad 2 h @ ?r5"
  let ?r2 = "zero_pad 2 d @ CHR ''_'' # ?r4"
  let ?r1 = "zero_pad 2 m @ ?r2"
  from re_S_pad [OF b(8), of "[]"] obtain y7 where e7: "re_S ?r6 = (s, []) # y7" by auto
  from re_M_pad [OF b(7), of ?r6] obtain y6 where e6: "re_M ?r5 = (mi, ?r6) # y6" by auto
  from re_H_pad [OF b(6), of ?r5] obtain y5 where e5: "re_H ?r4 = (h, ?r5) # y5" by auto
  from re_d_pad [OF b(4,5), of "CHR ''_'' # ?r4"] obtain y3 where
    e3: "re_d ?r2 = (d, CHR ''_'' # ?r4) # y3" by auto
  from re_m_pad [OF b(2,3), of ?r2] obtain y2 where e2: "re_m ?r1 = (m, ?r2) # y2" by auto
  have e1: "re_Y (zero_pad 4 y @ ?r1) = [(y, ?r1)]" using b(1) by (rule re_Y_pad)
  show ?thesis
    by (simp add: matches_def e1 e2 e3 e5 e6 e7 lit_def List.bind_def)
qed

lemma strptime_canonical:
  assumes "valid_datetime y m d h mi s"
  shows "strptime (zero_pad 4 y @ zero_pad 2 m @ zero_pad 2 d @ ''_'' @
                   zero_pad 2 h @ zero_pad 2 mi @ zero_pad 2 s)
           = Some \<lparr>year = y, month = m, day = d, hour = h, minute = mi, second = s,
                   microsecond = 0\<rparr>"
proof -
  from matches_canonical [OF assms] obtain ws where
    "matches (zero_pad 4 y @ zero_pad 2 m @ zero_pad 2 d @ ''_'' @
              zero_pad 2 h @ zero_pad 2 mi @ zero_pad 2 s)
       = (\<lparr>year = y, month = m, day = d, hour = h, minute = mi, second = s,
            microsecond = 0\<rparr>, []) # ws"
    by blast
  with assms show ?thesis by (simp add: strptime_def)
qed

lemma remove_all_skip:
  "old \<noteq> [] \<Longrightarrow> hd old \<notin> set s \<Longrightarrow> remove_all old (s @ t) = s @ remove_all old t"
proof (induction s)
  case Nil
  then show ?case by simp
next
  case (Cons c s)
  from Cons.prems have "\<not> prefix old (c # s @ t)"
    by (cases old) auto
  with Cons show ?case by simp
qed

lemma zero_pad_digits: "c \<in> set (zero_pad k n) \<Longrightarrow> is_digit c"
  by (induction k arbitrary: n) (auto simp: is_digit_digit_char)

lemma is_digit_not_letter: "is_digit c \<Longrightarrow> c \<noteq> CHR ''a'' \<and> c \<noteq> CHR ''.''"
  by (auto simp: is_digit_def in_range_def)

lemma remove_all_segment:
  assumes "\<forall>c \<in> set ds. is_digit c \<or> c = CHR ''_''"
  shows "remove_all ''.wav'' (remove_all ''audio_'' (''audio_'' @ ds @ ''.wav'')) = ds"
proof -
  from assms have a: "CHR ''a'' \<notin> set ds" and dot: "CHR ''.'' \<notin> set ds"
    using is_digit_not_letter by auto
  have "remove_all ''audio_'' (''audio_'' @ ds @ ''.wav'') = remove_all ''audio_'' (ds @ ''.wav'')"
    by simp
  also have "\<dots> = ds @ remove_all ''audio_'' ''.wav''"
    using a by (intro remove_all_skip) simp_all
  also have "\<dots> = ds @ ''.wav''" by simp
  finally have 1: "remove_all ''audio_'' (''audio_'' @ ds @ ''.wav'') = ds @ ''.wav''" .
  have "remove_all ''.wav'' (ds @ ''.wav'') = ds @ remove_all ''.wav'' ''.wav''"
    using dot by (intro remove_all_skip) simp_all
  also have "\<dots> = ds" by simp
  finally show ?thesis using 1 by simp
qed

lemma extract_timestamp_segment_name:
  assumes "valid_datetime y m d h mi s"
  shows "extract_timestamp now
           (segment_name \<lparr>year = y, month = m, day = d, hour = h, minute = mi, second = s,
                           microsecond = us\<rparr>)
         = \<lparr>year = y, month = m, day = d, hour = h, minute = mi, second = s, microsecond = 0\<rparr>"
proof -
  let ?ds = "zero_pad 4 y @ zero_pad 2 m @ zero_pad 2 d @ ''_'' @
             zero_pad 2 h @ zero_pad 2 mi @ zero_pad 2 s"
  have "\<forall>c \<in> set ?ds. is_digit c \<or> c = CHR ''_''"
    using zero_pad_digits by auto
  then have "remove_all ''.wav'' (remove_all ''audio_'' (''audio_'' @ ?ds @ ''.wav'')) = ?ds"
    by (rule remove_all_segment)
  moreover have "segment_name \<lparr>year = y, month = m, day = d, hour = h, minute = mi, second = s,
                           microsecond = us\<rparr> = ''audio_'' @ ?ds @ ''.wav''"
    by (simp add: segment_name_def)
  ultimately show ?thesis
    using strptime_canonical [OF assms] by (simp only: extract_timestamp_def option.case)
qed

lemma in_range_timestamp_char:
  "in_range lo hi c \<Longrightarrow> is_digit lo \<Longrightarrow> is_digit hi \<Longrightarrow> timestamp_char c"
  by (auto simp: timestamp_char_def is_digit_def in_range_def)

lemma is_digit_consts:
  "is_digit CHR ''0''" "is_digit CHR ''1''" "is_digit CHR ''2''" "is_digit CHR ''3''"
  "is_digit CHR ''5''" "is_digit CHR ''6''" "is_digit CHR ''9''"
  by (simp_all add: is_digit_def in_range_def)

lemma two_consumes:
  assumes "(v, r) \<in> set (two p q s)"
    and "\<And>c. p c \<Longrightarrow> timestamp_char c" and "\<And>c. q c \<Longrightarrow> timestamp_char c"
  shows "set s \<subseteq> Collect timestamp_char \<union> set r"
proof -
  from assms(1) obtain a b where "s = a # b # r" "p a" "q b"
    by (auto simp: two_def split: list.splits if_splits)
  with assms(2,3) show ?thesis by auto
qed

lemma one_consumes:
  assumes "(v, r) \<in> set (one p s)" and "\<And>c. p c \<Longrightarrow> timestamp_char c"
  shows "set s \<subseteq> Collect timestamp_char \<union> set r"
proof -
  from assms(1) obtain a where "s = a # r" "p a"
    by (auto simp: one_def split: list.splits if_splits)
  with assms(2) show ?thesis by auto
qed

lemma is_digit_timestamp_char: "is_digit c \<Longrightarrow> timestamp_char c"
  by (simp add: timestamp_char_def)

lemma eq_timestamp_char: "is_digit a \<Longrightarrow> a = c \<Longrightarrow> timestamp_char c"
  by (auto simp: timestamp_char_def)

lemmas consumes_intros =
  in_range_timestamp_char is_digit_timestamp_char eq_timestamp_char is_digit_consts

lemma re_Y_consumes: "(v, r) \<in> set (re_Y s) \<Longrightarrow> set s \<subseteq> Collect timestamp_char \<union> set r"
  by (auto simp: re_Y_def timestamp_char_def split: list.splits if_splits)

lemma re_m_consumes: "(v, r) \<in> set (re_m s) \<Longrightarrow> set s \<subseteq> Collect timestamp_char \<union> set r"
  unfolding re_m_def set_append Un_iff
  by (elim disjE two_consumes one_consumes) (blast intro: consumes_intros)+

lemma re_H_consumes: "(v, r) \<in> set (re_H s) \<Longrightarrow> set s \<subseteq> Collect timestamp_char \<union> set r"
  unfolding re_H_def set_append Un_iff
  by (elim disjE two_consumes one_consumes) (blast intro: consumes_intros)+

lemma re_M_consumes: "(v, r) \<in> set (re_M s) \<Longrightarrow> set s \<subseteq> Collect timestamp_char \<union> set r"
  unfolding re_M_def set_append Un_iff
  by (elim disjE two_consumes one_consumes) (blast intro: consumes_intros)+

lemma re_S_consumes: "(v, r) \<in> set (re_S s) \<Longrightarrow> set s \<subseteq> Collect timestamp_char \<union> set r"
  unfolding re_S_def set_append Un_iff
  by (elim disjE two_consumes one_consumes) (blast intro: consumes_intros)+

lemma space_digit_consumes:
  "(v, r) \<in> set (case s of a # b # r \<Rightarrow>
        if a = CHR '' '' \<and> in_range CHR ''1'' CHR ''9'' b then [(digit_val b, r)] else []
      | _ \<Rightarrow> []) \<Longrightarrow> set s \<subseteq> Collect timestamp_char \<union> set r"
  by (auto simp: timestamp_char_def is_digit_def in_range_def split: list.splits if_splits)

lemma re_d_consumes: "(v, r) \<in> set (re_d s) \<Longrightarrow> set s \<subseteq> Collect timestamp_char \<union> set r"
  unfolding re_d_def set_append Un_iff
  by (elim disjE two_consumes one_consumes space_digit_consumes) (blast intro: consumes_intros)+

lemma lit_consumes: "r \<in> set (lit CHR ''_'' s) \<Longrightarrow> set s \<subseteq> Collect timestamp_char \<union> set r"
  by (auto simp: lit_def timestamp_char_def split: list.splits if_splits)


lemma matches_consumes:
  assumes "(t, r) \<in> set (matches s)"
  shows "set s \<subseteq> Collect timestamp_char \<union> set r"
proof -
  from assms obtain y r1 m r2 d r3 r4 h r5 mi r6 sec where
    "(y, r1) \<in> set (re_Y s)" "(m, r2) \<in> set (re_m r1)" "(d, r3) \<in> set (re_d r2)"
    "r4 \<in> set (lit CHR ''_'' r3)" "(h, r5) \<in> set (re_H r4)" "(mi, r6) \<in> set (re_M r5)"
    "(sec, r) \<in> set (re_S r6)"
    by (auto simp: matches_def List.bind_def)
  then have "set s \<subseteq> Collect timestamp_char \<union> set r1"
    "set r1 \<subseteq> Collect timestamp_char \<union> set r2"
    "set r2 \<subseteq> Collect timestamp_char \<union> set r3"
    "set r3 \<subseteq> Collect timestamp_char \<union> set r4"
    "set r4 \<subseteq> Collect timestamp_char \<union> set r5"
    "set r5 \<subseteq> Collect timestamp_char \<union> set r6"
    "set r6 \<subseteq> Collect timestamp_char \<union> set r"
    by (blast dest: re_Y_consumes re_m_consumes re_d_consumes lit_consumes re_H_consumes
          re_M_consumes re_S_consumes)+
  then show ?thesis by blast
qed

lemma strptime_rejects:
  assumes "c \<in> set s" and "\<not> timestamp_char c"
  shows "strptime s = None"
proof (cases "matches s")
  case Nil
  then show ?thesis by (simp add: strptime_def)
next
  case (Cons tr trs)
  obtain t r where tr: "tr = (t, r)" by (cases tr)
  show ?thesis
  proof (cases "r = []")
    case True
    from Cons tr have "(t, r) \<in> set (matches s)" by simp
    from matches_consumes [OF this] True assms show ?thesis by auto
  next
    case False
    with Cons tr show ?thesis by (simp add: strptime_def)
  qed
qed

lemma segment_name_matches_convention: "matches_convention (segment_name t)"
  by (simp add: matches_convention_def segment_name_def zero_pad_2 zero_pad_4
        is_digit_digit_char)

text \<open>
  C9, as claimed: a filename that does not match the convention
  \<open>audio_<YYYYMMDD>_<HHMMSS>.wav\<close> falls back to the current time. It fails: every
  occurrence of \<open>audio_\<close> and \<open>.wav\<close> is deleted before parsing and \<open>strptime\<close> accepts
  fields of one digit, so \<open>audio_20250101_120000.wav.wav\<close> and \<open>audio_20250101_1200.wav\<close>,
  which do not match the convention, both parse to 2025-01-01T12:00:00 although the clock
  shows another time.
\<close>

theorem lenient_parse_counterexample:
  "\<not> matches_convention ''audio_20250101_120000.wav.wav'' \<and>
   extract_timestamp (clock hello_env) ''audio_20250101_120000.wav.wav'' \<noteq> clock hello_env \<and>
   isoformat (extract_timestamp (clock hello_env) ''audio_20250101_120000.wav.wav'')
     = ''2025-01-01T12:00:00'' \<and>
   \<not> matches_convention ''audio_20250101_1200.wav'' \<and>
   isoformat (extract_timestamp (clock hello_env) ''audio_20250101_1200.wav'')
     = ''2025-01-01T12:00:00''"
  by (simp add: matches_convention_def hello_env_def strptime_eval)

text \<open>
  C9, amended. For every valid calendar time, with a year from 1 to 9999, the name
  \<open>audio_<YYYYMMDD>_<HHMMSS>.wav\<close> that embeds it matches the convention and parses to
  exactly that time; \<open>audio_20250101_120000.wav\<close> parses to 2025-01-01T12:00:00. The
  function returns a time for every filename, without raising. It falls back to the
  current time when \<open>strptime\<close> rejects what is left of the name once every \<open>audio_\<close> and
  every \<open>.wav\<close> is deleted, which is so whenever a character other than a digit, an
  underscore or a space is left.
\<close>

theorem extract_timestamp_segment_names:
  "(valid_datetime y m d h mi s \<longrightarrow>
      matches_convention
        (segment_name \<lparr>year = y, month = m, day = d, hour = h, minute = mi, second = s,
                        microsecond = us\<rparr>) \<and>
      extract_timestamp now
        (segment_name \<lparr>year = y, month = m, day = d, hour = h, minute = mi, second = s,
                        microsecond = us\<rparr>)
      = \<lparr>year = y, month = m, day = d, hour = h, minute = mi, second = s, microsecond = 0\<rparr>) \<and>
   isoformat (extract_timestamp now ''audio_20250101_120000.wav'') = ''2025-01-01T12:00:00'' \<and>
   (strptime (remove_all ''.wav'' (remove_all ''audio_'' name)) = None \<longrightarrow>
      extract_timestamp now name = now) \<and>
   (c \<in> set (remove_all ''.wav'' (remove_all ''audio_'' name)) \<and> \<not> timestamp_char c \<longrightarrow>
      extract_timestamp now name = now)"
proof -
  have a: "valid_datetime y m d h mi s \<longrightarrow>
      matches_convention
        (segment_name \<lparr>year = y, month = m, day = d, hour = h, minute = mi, second = s,
                        microsecond = us\<rparr>) \<and>
      extract_timestamp now
        (segment_name \<lparr>year = y, month = m, day = d, hour = h, minute = mi, second = s,
                        microsecond = us\<rparr>)
      = \<lparr>year = y, month = m, day = d, hour = h, minute = mi, second = s, microsecond = 0\<rparr>"
    using segment_name_matches_convention extract_timestamp_segment_name by blast
  have b: "isoformat (extract_timestamp now ''audio_20250101_120000.wav'') = ''2025-01-01T12:00:00''"
    by (simp add: strptime_eval)
  have c: "strptime (remove_all ''.wav'' (remove_all ''audio_'' name)) = None \<longrightarrow>
      extract_timestamp now name = now"
    by (simp add: extract_timestamp_def)
  have d: "c \<in> set (remove_all ''.wav'' (remove_all ''audio_'' name)) \<and> \<not> timestamp_char c \<longrightarrow>
      extract_timestamp now name = now"
    using strptime_rejects [of c "remove_all ''.wav'' (remove_all ''audio_'' name)"]
    by (auto simp: extract_timestamp_def)
  from a b c d show ?thesis by blast
qed

theorem extract_timestamp_segment_names_witness:
  "extract_timestamp (clock hello_env)
     (segment_name \<lparr>year = 2025, month = 1, day = 1, hour = 12, minute = 0, second = 0,
                     microsecond = 0\<rparr>)
     = \<lparr>year = 2025, month = 1, day = 1, hour = 12, minute = 0, second = 0, microsecond = 0\<rparr> \<and>
   extract_timestamp (clock hello_env) ''audio_backup.wav'' = clock hello_env"
  using extract_timestamp_segment_names
    [of 2025 1 1 12 0 0 0 "clock hello_env" "''audio_backup.wav''" "CHR ''b''"]
  by (simp add: valid_datetime_def days_in_month_def is_leap_def timestamp_char_def is_digit_def
        in_range_def)

subsection \<open>Fallback summary\<close>

lemma split_from_blank:
  "blank g \<Longrightarrow> split_from [] (g @ s) = split_from [] s"
  by (induction g) (simp_all add: blank_def)

lemma split_from_nonspace:
  "list_all (\<lambda>c. \<not> is_space c) w \<Longrightarrow> split_from cur (w @ s) = split_from (cur @ w) s"
  by (induction w arbitrary: cur) simp_all

lemma split_from_gap:
  "blank g \<Longrightarrow> g \<noteq> [] \<Longrightarrow> cur \<noteq> [] \<Longrightarrow> split_from cur (g @ s) = cur # split_from [] s"
proof (cases g)
  case Nil
  then show "g \<noteq> [] \<Longrightarrow> ?thesis" by simp
next
  case (Cons c g')
  assume "blank g" "cur \<noteq> []"
  with Cons have "is_space c" "blank g'" by (simp_all add: blank_def)
  with Cons \<open>cur \<noteq> []\<close> show ?thesis by (simp add: split_from_blank)
qed

lemma split_from_weave:
  "gaps_ok ((w, g) # rest) \<Longrightarrow>
   split_from [] (w @ weave g rest) = w # map fst rest"
proof (induction rest arbitrary: w g)
  case Nil
  then have w: "w \<noteq> []" "list_all (\<lambda>c. \<not> is_space c) w" and g: "blank g"
    by (simp_all add: word_def)
  have "split_from [] (w @ g) = split_from w g" using w(2) split_from_nonspace [of w "[]" g] by simp
  also have "\<dots> = [w]"
  proof (cases g)
    case Nil
    with w(1) show ?thesis by simp
  next
    case (Cons c g')
    with g w(1) split_from_gap [of g w "[]"] show ?thesis by simp
  qed
  finally show ?case by simp
next
  case (Cons v rest)
  obtain w' g' where v: "v = (w', g')" by (cases v)
  from Cons.prems v have w: "w \<noteq> []" "list_all (\<lambda>c. \<not> is_space c) w"
    and g: "blank g" "g \<noteq> []" and rest: "gaps_ok ((w', g') # rest)"
    by (simp_all add: word_def)
  have "split_from [] (w @ weave g (v # rest)) = split_from w (g @ w' @ weave g' rest)"
    using w(2) split_from_nonspace [of w "[]"] v by simp
  also have "\<dots> = w # split_from [] (w' @ weave g' rest)"
    using g w(1) by (rule split_from_gap)
  also have "split_from [] (w' @ weave g' rest) = w' # map fst rest"
    using rest by (rule Cons.IH)
  finally show ?case using v by simp
qed

lemma split_ws_weave:
  assumes "blank lead" and "gaps_ok wgs"
  shows "split_ws (weave lead wgs) = map fst wgs"
proof (cases wgs)
  case Nil
  with assms(1) split_from_blank [of lead "[]"] show ?thesis by (simp add: split_ws_def)
next
  case (Cons p rest)
  obtain w g where p: "p = (w, g)" by (cases p)
  with Cons assms(2) have "split_from [] (w @ weave g rest) = w # map fst rest"
    by (intro split_from_weave) simp
  with Cons p assms(1) split_from_blank [of lead "w @ weave g rest"] show ?thesis
    by (simp add: split_ws_def)
qed

lemma join_with_concat: "join_with sep (w # ws) = w @ concat (map (\<lambda>v. sep @ v) ws)"
  by (induction ws arbitrary: w) simp_all

lemma join_with_spaced: "join_with '' '' ws = spaced ws"
  by (cases ws) (simp_all add: join_with_concat)

text \<open>Every string is a transcript written out in this way.\<close>

lemma weave_covers: "\<exists>lead wgs. blank lead \<and> gaps_ok wgs \<and> t = weave lead wgs"
proof (induction t)
  case Nil
  have "blank [] \<and> gaps_ok [] \<and> [] = weave [] []" by (simp add: blank_def)
  then show ?case by blast
next
  case (Cons c t)
  then obtain lead wgs where b: "blank lead" and ok: "gaps_ok wgs" and t: "t = weave lead wgs"
    by blast
  show ?case
  proof (cases "is_space c")
    case True
    with b ok t have "blank (c # lead) \<and> gaps_ok wgs \<and> c # t = weave (c # lead) wgs"
      by (cases wgs) (auto simp: blank_def)
    then show ?thesis by blast
  next
    case False
    show ?thesis
    proof (cases "lead = [] \<and> wgs \<noteq> []")
      case True
      then obtain w g rest where wgs: "wgs = (w, g) # rest" by (cases wgs) auto
      with ok have "gaps_ok ((c # w, g) # rest)"
        using False by (cases rest) (simp_all add: word_def)
      moreover from True wgs t have "c # t = weave [] ((c # w, g) # rest)" by simp
      ultimately have "blank [] \<and> gaps_ok ((c # w, g) # rest) \<and> c # t = weave [] ((c # w, g) # rest)"
        by (simp add: blank_def)
      then show ?thesis by blast
    next
      case no: False
      have "gaps_ok (([c], lead) # wgs)"
      proof (cases wgs)
        case Nil
        with b False show ?thesis by (simp add: word_def)
      next
        case (Cons p rest)
        with no have "lead \<noteq> []" by simp
        with Cons b ok False show ?thesis by (simp add: word_def)
      qed
      moreover from t have "c # t = weave [] (([c], lead) # wgs)" by simp
      ultimately have "blank [] \<and> gaps_ok (([c], lead) # wgs) \<and> c # t = weave [] (([c], lead) # wgs)"
        by (simp add: blank_def)
      then show ?thesis by blast
    qed
  qed
qed

text \<open>
  C6. Every transcript is some leading whitespace followed by words, each with whitespace
  after it that is not empty between two words. When the summarization call fails, the
  summary of such a transcript is its first 15 words with one space between neighbours,
  followed by \<open>...\<close>, if it has more than 15 words, and the transcript itself, whitespace
  included, otherwise. For the 20 words \<open>word1\<close> to \<open>word20\<close> it is the first 15 of them
  followed by the marker.
\<close>

theorem generate_summary_fallback:
  "(blank lead \<and> gaps_ok wgs \<and> svc (weave lead wgs) = None \<longrightarrow>
      (15 < length wgs \<longrightarrow>
         generate_summary svc (weave lead wgs) = spaced (take 15 (map fst wgs)) @ ''...'') \<and>
      (length wgs \<le> 15 \<longrightarrow> generate_summary svc (weave lead wgs) = weave lead wgs)) \<and>
   (\<exists>lead wgs. blank lead \<and> gaps_ok wgs \<and> t = weave lead wgs) \<and>
   generate_summary (\<lambda>_. None)
      ''word1 word2 word3 word4 word5 word6 word7 word8 word9 word10 word11 word12 word13 word14 word15 word16 word17 word18 word19 word20''
    = ''word1 word2 word3 word4 word5 word6 word7 word8 word9 word10 word11 word12 word13 word14 word15...''"
proof -
  have general: "blank lead \<and> gaps_ok wgs \<and> svc (weave lead wgs) = None \<longrightarrow>
      (15 < length wgs \<longrightarrow>
         generate_summary svc (weave lead wgs) = spaced (take 15 (map fst wgs)) @ ''...'') \<and>
      (length wgs \<le> 15 \<longrightarrow> generate_summary svc (weave lead wgs) = weave lead wgs)"
    by (simp add: generate_summary_def fallback_summary_def Let_def split_ws_weave
          join_with_spaced)
  have example: "generate_summary (\<lambda>_. None)
      ''word1 word2 word3 word4 word5 word6 word7 word8 word9 word10 word11 word12 word13 word14 word15 word16 word17 word18 word19 word20''
    = ''word1 word2 word3 word4 word5 word6 word7 word8 word9 word10 word11 word12 word13 word14 word15...''"
    by (simp add: generate_summary_def fallback_summary_def split_ws_def is_space_def)
  from general weave_covers [of t] example show ?thesis by blast
qed

theorem generate_summary_fallback_witness:
  "generate_summary (\<lambda>_. None) ''  breaking news   tonight '' = ''  breaking news   tonight ''"
proof -
  have e: "''  breaking news   tonight ''
         = weave ''  '' [(''breaking'', '' ''), (''news'', ''   ''), (''tonight'', '' '')]"
    by simp
  have "blank ''  '' \<and> gaps_ok [(''breaking'', '' ''), (''news'', ''   ''), (''tonight'', '' '')]"
    by (simp add: blank_def word_def is_space_def)
  with generate_summary_fallback
    [of "''  ''" "[(''breaking'', '' ''), (''news'', ''   ''), (''tonight'', '' '')]" "\<lambda>_. None"]
  show ?thesis unfolding e by simp
qed

subsection \<open>Retrieval window\<close>

text \<open>
  C10. With \<open>n\<close> stored transcripts, \<open>get_latest_transcripts limit\<close> for a positive
  \<open>limit\<close> returns the last \<open>min limit n\<close> records in append order; for \<open>limit = 0\<close> it
  returns the whole stored sequence, not the empty list.
\<close>

theorem get_latest_transcripts_window:
  "(0 < limit \<longrightarrow>
      get_latest_transcripts limit st
        = drop (length (latest_transcripts st) - min (nat limit) (length (latest_transcripts st)))
            (latest_transcripts st) \<and>
      length (get_latest_transcripts limit st) = min (nat limit) (length (latest_transcripts st)) \<and>
      suffix (get_latest_transcripts limit st) (latest_transcripts st)) \<and>
   get_latest_transcripts 0 st = latest_transcripts st"
proof -
  let ?xs = "latest_transcripts st"
  have zero: "get_latest_transcripts 0 st = ?xs"
    by (simp add: get_latest_transcripts_def slice_from_def)
  have pos: "get_latest_transcripts limit st = drop (length ?xs - min (nat limit) (length ?xs)) ?xs"
    if "0 < limit"
  proof -
    have "nat (max 0 (int (length ?xs) - limit)) = length ?xs - min (nat limit) (length ?xs)"
      using that
      by (cases "limit \<le> int (length ?xs)")
         (simp_all add: max_def min_def nat_diff_distrib' nat_le_iff)
    with that show ?thesis
      by (simp add: get_latest_transcripts_def slice_from_def Let_def)
  qed
  have len: "length (get_latest_transcripts limit st) = min (nat limit) (length ?xs)"
    if "0 < limit"
    using pos [OF that] by (simp add: min_def)
  have suf: "suffix (get_latest_transcripts limit st) ?xs" if "0 < limit"
    using pos [OF that] by (simp add: suffix_drop)
  from zero pos len suf show ?thesis by blast
qed

theorem get_latest_transcripts_window_witness:
  "get_latest_transcripts 2
     (init_service\<lparr>latest_transcripts :=
        [\<lparr>timestamp = ''t1'', video_start = ''t1'', video_end = ''t1'', filename = ''f1'',
          transcript = ''a'', summary = ''a''\<rparr>,
         \<lparr>timestamp = ''t2'', video_start = ''t2'', video_end = ''t2'', filename = ''f2'',
          transcript = ''b'', summary = ''b''\<rparr>,
         \<lparr>timestamp = ''t3'', video_start = ''t3'', video_end = ''t3'', filename = ''f3'',
          transcript = ''c'', summary = ''c''\<rparr>]\<rparr>)
   = [\<lparr>timestamp = ''t2'', video_start = ''t2'', video_end = ''t2'', filename = ''f2'',
          transcript = ''b'', summary = ''b''\<rparr>,
      \<lparr>timestamp = ''t3'', video_start = ''t3'', video_end = ''t3'', filename = ''f3'',
          transcript = ''c'', summary = ''c''\<rparr>]"
  using get_latest_transcripts_window [of 2 "init_service\<lparr>latest_transcripts :=
        [\<lparr>timestamp = ''t1'', video_start = ''t1'', video_end = ''t1'', filename = ''f1'',
          transcript = ''a'', summary = ''a''\<rparr>,
         \<lparr>timestamp = ''t2'', video_start = ''t2'', video_end = ''t2'', filename = ''f2'',
          transcript = ''b'', summary = ''b''\<rparr>,
         \<lparr>timestamp = ''t3'', video_start = ''t3'', video_end = ''t3'', filename = ''f3'',
          transcript = ''c'', summary = ''c''\<rparr>]\<rparr>"]
  by (simp add: init_service_def)

end
